theory Spec2Isabelle
  imports Complex_Main "HOL-Library.Word"
begin

section \<open>CodePulse: the workspace scanner of the extension host\<close>

text \<open>
  The development embeds \<^verbatim>\<open>PRReviewerWebviewProvider.analyzeWorkspace\<close> (the
  TypeScript source and its compiled JavaScript are the same program) together with the
  parts of the JavaScript runtime it relies on: strings of UTF-16 code units, the regular
  expressions written in the source, \<^verbatim>\<open>path.basename\<close> and \<^verbatim>\<open>path.extname\<close> (POSIX
  flavour), and the binary64 arithmetic behind the progress percentage.
\<close>

subsection \<open>JavaScript strings\<close>

type_synonym jschar = "16 word"
type_synonym jsstring = "jschar list"

definition ch :: "char \<Rightarrow> jschar" where
  "ch c = of_nat (of_char c)"

definition js :: "string \<Rightarrow> jsstring" where
  "js s = map ch s"

definition ellipsis :: jschar where
  "ellipsis = 0x2026"

definition CHAR_FORWARD_SLASH :: jschar where
  "CHAR_FORWARD_SLASH = 0x2F"

definition CHAR_DOT :: jschar where
  "CHAR_DOT = 0x2E"

text \<open>\<^verbatim>\<open>s.substring(a, b)\<close> for \<open>0 \<le> a \<le> b\<close>; the end index is clipped to the length.\<close>

definition substring :: "jsstring \<Rightarrow> nat \<Rightarrow> nat \<Rightarrow> jsstring" where
  "substring s a b = take (b - a) (drop a s)"

text \<open>\<^verbatim>\<open>s.replace(c, r)\<close> with a one-character string pattern: only the first occurrence
  is replaced.\<close>

fun replace :: "jsstring \<Rightarrow> jschar \<Rightarrow> jsstring \<Rightarrow> jsstring" where
  "replace [] c r = []"
| "replace (x # xs) c r = (if x = c then r @ xs else x # replace xs c r)"

subsection \<open>Node's path module (POSIX)\<close>

text \<open>
  \<^verbatim>\<open>path.basename\<close> and \<^verbatim>\<open>path.extname\<close> belong to the runtime, not to the
  repository; they are transcribed from the POSIX implementation in Node's
  \<^verbatim>\<open>lib/path.js\<close>, loop by loop and with its variable names.
\<close>

text \<open>\<^verbatim>\<open>path.slice(start, end)\<close> on indices that the loops below keep within the string.\<close>

definition slice :: "jsstring \<Rightarrow> int \<Rightarrow> int \<Rightarrow> jsstring" where
  "slice s a b = take (nat (b - a)) (drop (nat a) s)"

text \<open>
  \<^verbatim>\<open>path.basename(path)\<close> walks the string from its last index down; the counter is the
  index plus one. It returns the pair of \<^verbatim>\<open>start\<close> and \<^verbatim>\<open>end\<close>.
\<close>

fun basename_loop :: "jsstring \<Rightarrow> nat \<Rightarrow> int \<Rightarrow> int \<Rightarrow> bool \<Rightarrow> int \<times> int" where
  "basename_loop path 0 start end' matchedSlash = (start, end')"
| "basename_loop path (Suc i) start end' matchedSlash =
     (if path ! i = CHAR_FORWARD_SLASH then
        (if \<not> matchedSlash then (int i + 1, end')
         else basename_loop path i start end' matchedSlash)
      else if end' = - 1 then basename_loop path i start (int i + 1) False
      else basename_loop path i start end' matchedSlash)"

definition basename :: "jsstring \<Rightarrow> jsstring" where
  "basename path =
     (case basename_loop path (length path) 0 (- 1) True of
        (start, end') \<Rightarrow> if end' = - 1 then [] else slice path start end')"

record ext_vars =
  startDot :: int
  startPart :: int
  end' :: int
  matchedSlash :: bool
  preDotState :: int

fun extname_loop :: "jsstring \<Rightarrow> nat \<Rightarrow> ext_vars \<Rightarrow> ext_vars" where
  "extname_loop path 0 v = v"
| "extname_loop path (Suc i) v =
     (let code = path ! i in
      if code = CHAR_FORWARD_SLASH then
        (if \<not> matchedSlash v then v\<lparr>startPart := int i + 1\<rparr>
         else extname_loop path i v)
      else
        (let v1 = (if end' v = - 1 then v\<lparr>matchedSlash := False, end' := int i + 1\<rparr>
                   else v);
             v2 = (if code = CHAR_DOT then
                     (if startDot v1 = - 1 then v1\<lparr>startDot := int i\<rparr>
                      else if preDotState v1 \<noteq> 1 then v1\<lparr>preDotState := 1\<rparr>
                      else v1)
                   else if startDot v1 \<noteq> - 1 then v1\<lparr>preDotState := - 1\<rparr>
                   else v1)
         in extname_loop path i v2))"

definition extname :: "jsstring \<Rightarrow> jsstring" where
  "extname path =
     (let v = extname_loop path (length path)
                \<lparr>startDot = - 1, startPart = 0, end' = - 1, matchedSlash = True,
                 preDotState = 0\<rparr>
      in if startDot v = - 1 \<or> end' v = - 1 \<or> preDotState v = 0 \<or>
            (preDotState v = 1 \<and> startDot v = end' v - 1 \<and> startDot v = startPart v + 1)
         then []
         else slice path (startDot v) (end' v))"

subsection \<open>Regular expressions\<close>

text \<open>
  The constructs that occur in the five regular expressions of the source: character
  classes, concatenation, alternation, a quantified class \<open>{n,}\<close> (greedy or lazy)
  and the word boundary. Without the \<^verbatim>\<open>u\<close> flag a pattern character is one code unit.
  The matcher follows the backtracking semantics of ECMAScript: alternatives from left to
  right, a greedy quantifier from the longest repetition down, a lazy one from the
  shortest up.
\<close>

datatype cls =
    Dot
  | Lit jschar
  | Space
  | OneOf "(jschar \<times> jschar) list"
  | NoneOf "(jschar \<times> jschar) list"

definition in_ranges :: "(jschar \<times> jschar) list \<Rightarrow> jschar \<Rightarrow> bool" where
  "in_ranges rs c = list_ex (\<lambda>(lo, hi). lo \<le> c \<and> c \<le> hi) rs"

definition line_terminator :: "jschar \<Rightarrow> bool" where
  "line_terminator c = (c = 0x0A \<or> c = 0x0D \<or> c = 0x2028 \<or> c = 0x2029)"

definition white_space :: "jschar \<Rightarrow> bool" where
  "white_space c =
     in_ranges [(0x09, 0x0D), (0x20, 0x20), (0xA0, 0xA0), (0x1680, 0x1680),
                (0x2000, 0x200A), (0x2028, 0x2029), (0x202F, 0x202F), (0x205F, 0x205F),
                (0x3000, 0x3000), (0xFEFF, 0xFEFF)] c"

fun cls_match :: "cls \<Rightarrow> jschar \<Rightarrow> bool" where
  "cls_match Dot c = (\<not> line_terminator c)"
| "cls_match (Lit x) c = (c = x)"
| "cls_match Space c = white_space c"
| "cls_match (OneOf rs) c = in_ranges rs c"
| "cls_match (NoneOf rs) c = (\<not> in_ranges rs c)"

datatype quant = Greedy | Lazy

datatype regex =
    Eps
  | Chr cls
  | Seq regex regex
  | Alt regex regex
  | Repeat cls nat quant
  | WordBoundary

definition word_char :: "jschar option \<Rightarrow> bool" where
  "word_char p =
     (case p of None \<Rightarrow> False
      | Some c \<Rightarrow> in_ranges [(0x61, 0x7A), (0x41, 0x5A), (0x30, 0x39), (0x5F, 0x5F)] c)"

definition head :: "jsstring \<Rightarrow> jschar option" where
  "head s = (case s of [] \<Rightarrow> None | c # _ \<Rightarrow> Some c)"

text \<open>The character before the position reached after \<open>n\<close> more code units.\<close>

definition prev_at :: "jschar option \<Rightarrow> jsstring \<Rightarrow> nat \<Rightarrow> jschar option" where
  "prev_at p s n = (if n = 0 then p else head (drop (n - 1) s))"

text \<open>
  \<open>ends r p s\<close> lists, in the order in which the backtracking matcher tries them, the
  lengths of the matches of \<open>r\<close> that start at the beginning of \<open>s\<close>, where \<open>p\<close> is the
  code unit before \<open>s\<close>. The match the engine reports is the first of the list.
  \<open>after f p s n\<close> continues with the rest of a sequence once \<open>n\<close> code units are
  consumed.
\<close>

definition after :: "(jschar option \<Rightarrow> jsstring \<Rightarrow> nat list) \<Rightarrow> jschar option \<Rightarrow> jsstring \<Rightarrow> nat \<Rightarrow> nat list" where
  "after f p s n = map (\<lambda>m. n + m) (f (prev_at p s n) (drop n s))"

primrec ends :: "regex \<Rightarrow> jschar option \<Rightarrow> jsstring \<Rightarrow> nat list" where
  "ends Eps p s = [0]"
| "ends (Chr k) p s = (case s of [] \<Rightarrow> [] | c # _ \<Rightarrow> if cls_match k c then [1] else [])"
| "ends (Seq a b) p s = concat (map (after (ends b) p s) (ends a p s))"
| "ends (Alt a b) p s = ends a p s @ ends b p s"
| "ends (Repeat k lo q) p s =
     (let hi = length (takeWhile (cls_match k) s)
      in case q of Greedy \<Rightarrow> rev [lo..<Suc hi] | Lazy \<Rightarrow> [lo..<Suc hi])"
| "ends WordBoundary p s = (if word_char p \<noteq> word_char (head s) then [0] else [])"

text \<open>
  The loop of \<^verbatim>\<open>String.prototype.match\<close> for a regular expression with the \<^verbatim>\<open>g\<close> flag:
  the leftmost match from \<^verbatim>\<open>lastIndex\<close> is recorded and \<^verbatim>\<open>lastIndex\<close> moves to its
  end (one further after an empty match). \<open>skip\<close> counts the code units still covered by
  the match recorded last.
\<close>

fun match_g :: "regex \<Rightarrow> jschar option \<Rightarrow> nat \<Rightarrow> jsstring \<Rightarrow> jsstring list" where
  "match_g r p skip [] = (if skip = 0 \<and> ends r p [] \<noteq> [] then [[]] else [])"
| "match_g r p skip (c # s) =
     (if 0 < skip then match_g r (Some c) (skip - 1) s
      else case ends r p (c # s) of
          [] \<Rightarrow> match_g r (Some c) 0 s
        | n # _ \<Rightarrow> take n (c # s) # match_g r (Some c) (n - 1) s)"

text \<open>\<^verbatim>\<open>text.match(/r/g)\<close>: \<^verbatim>\<open>null\<close> when nothing matches, else the array of matches.\<close>

definition js_match :: "jsstring \<Rightarrow> regex \<Rightarrow> jsstring list option" where
  "js_match s r = (case match_g r None 0 s of [] \<Rightarrow> None | m # ms \<Rightarrow> Some (m # ms))"

text \<open>\<^verbatim>\<open>/r/.test(text)\<close> without the \<^verbatim>\<open>g\<close> flag: is there a match at some index?\<close>

fun test_from :: "regex \<Rightarrow> jschar option \<Rightarrow> jsstring \<Rightarrow> bool" where
  "test_from r p [] = (ends r p [] \<noteq> [])"
| "test_from r p (c # s) = (ends r p (c # s) \<noteq> [] \<or> test_from r (Some c) s)"

definition js_test :: "regex \<Rightarrow> jsstring \<Rightarrow> bool" where
  "js_test r s = test_from r None s"

fun lit :: "string \<Rightarrow> regex" where
  "lit [] = Eps"
| "lit [c] = Chr (Lit (ch c))"
| "lit (c # cs) = Seq (Chr (Lit (ch c))) (lit cs)"

fun seqs :: "regex list \<Rightarrow> regex" where
  "seqs [] = Eps"
| "seqs [r] = r"
| "seqs (r # rs) = Seq r (seqs rs)"

fun alts :: "regex list \<Rightarrow> regex" where
  "alts [] = Eps"
| "alts [r] = r"
| "alts (r # rs) = Alt r (alts rs)"

text \<open>\<^verbatim>\<open>[a-zA-Z0-9]\<close>, \<^verbatim>\<open>[a-zA-Z0-9_\-/+]\<close> and the three quote characters.\<close>

definition alnum :: cls where
  "alnum = OneOf [(0x61, 0x7A), (0x41, 0x5A), (0x30, 0x39)]"

definition token_char :: cls where
  "token_char = OneOf [(0x61, 0x7A), (0x41, 0x5A), (0x30, 0x39), (0x5F, 0x5F), (0x2D, 0x2D),
                       (0x2F, 0x2F), (0x2B, 0x2B)]"

definition quote :: cls where
  "quote = OneOf [(0x27, 0x27), (0x22, 0x22), (0x60, 0x60)]"

text \<open>The three entries of \<^verbatim>\<open>secPatterns\<close>, in the order of the array.\<close>

definition secPatterns :: "regex list" where
  "secPatterns =
     [seqs [alts [lit ''API_KEY'', lit ''APIKEY'', lit ''api_key'', lit ''SECRET'',
                  lit ''PASSWORD'', lit ''PASSWD'', lit ''TOKEN'', lit ''ACCESS_KEY''],
            Repeat Space 0 Greedy, Chr (OneOf [(0x3A, 0x3A), (0x3D, 0x3D)]),
            Repeat Space 0 Greedy, Chr quote, Repeat token_char 8 Greedy, Chr quote],
      seqs [lit ''eyJ'', Repeat alnum 10 Greedy],
      seqs [alts [lit ''sk-'', lit ''pk-''], Repeat alnum 20 Greedy]]"

text \<open>\<^verbatim>\<open>/for\s*\(.*?\)\s*\{[^}]*for\s*\(/g\<close>\<close>

definition nestedLoopPattern :: regex where
  "nestedLoopPattern =
     seqs [lit ''for'', Repeat Space 0 Greedy, Chr (Lit 0x28), Repeat Dot 0 Lazy,
           Chr (Lit 0x29), Repeat Space 0 Greedy, Chr (Lit 0x7B),
           Repeat (NoneOf [(0x7D, 0x7D)]) 0 Greedy,
           lit ''for'', Repeat Space 0 Greedy, Chr (Lit 0x28)]"

text \<open>\<^verbatim>\<open>/\beval\s*\(/\<close>\<close>

definition evalPattern :: regex where
  "evalPattern = seqs [WordBoundary, lit ''eval'', Repeat Space 0 Greedy, Chr (Lit 0x28)]"

subsection \<open>Numbers: the binary64 arithmetic of the progress percentage\<close>

text \<open>
  \<^verbatim>\<open>progress / files.length\<close> and the product with 85 are IEEE 754 binary64 operations:
  the exact result rounded to 53 significant bits, ties to even. Values are kept as the
  rationals they denote. The operands of this program lie between \<open>2\<^sup>-\<^sup>3\<^sup>2\<close> and 85, far
  from overflow and from the subnormal range, which are left out.
\<close>

function bit_length :: "int \<Rightarrow> nat" where
  "bit_length n = (if n \<le> 0 then 0 else Suc (bit_length (n div 2)))"
  by auto
termination
  by (relation "measure nat") auto

declare bit_length.simps [simp del]

text \<open>The exponent \<open>e\<close> with \<open>2\<^sup>e \<le> x < 2\<^sup>e\<^sup>+\<^sup>1\<close>, for positive \<open>x\<close>.\<close>

definition binade :: "rat \<Rightarrow> int" where
  "binade x =
     (let (p, q) = quotient_of x;
          d = int (bit_length p) - int (bit_length q)
      in if 2 powi d \<le> x then d else d - 1)"

definition round_ties_even :: "rat \<Rightarrow> int" where
  "round_ties_even x =
     (let f = \<lfloor>x\<rfloor>; d = x - of_int f
      in if d < 1 / 2 then f else if 1 / 2 < d then f + 1
         else if even f then f else f + 1)"

definition binary64 :: "rat \<Rightarrow> rat" where
  "binary64 x =
     (if x = 0 then 0
      else let u = 2 powi (binade \<bar>x\<bar> - 52)
           in sgn x * of_int (round_ties_even (\<bar>x\<bar> / u)) * u)"

definition js_div :: "rat \<Rightarrow> rat \<Rightarrow> rat" where
  "js_div x y = binary64 (x / y)"

definition js_mul :: "rat \<Rightarrow> rat \<Rightarrow> rat" where
  "js_mul x y = binary64 (x * y)"

text \<open>\<^verbatim>\<open>Math.round\<close>: the nearest integer, a half rounds up.\<close>

definition Math_round :: "rat \<Rightarrow> int" where
  "Math_round x = \<lfloor>x + 1 / 2\<rfloor>"

subsection \<open>The data of a scan\<close>

record FileDetail =
  fd_name :: jsstring
  fd_path :: jsstring
  fd_lines :: int
  fd_size :: int
  fd_ext :: jsstring

record SecurityIssue =
  si_file :: jsstring
  si_line :: int
  si_match :: jsstring

record PerformanceIssue =
  pi_file :: jsstring
  pi_count :: int
  pi_type :: jsstring

text \<open>The payload of the \<^verbatim>\<open>analysisResult\<close> message.\<close>

record report =
  data_healthScore :: int
  data_workspaceName :: jsstring
  data_godFiles :: "FileDetail list"
  data_securityIssues :: "SecurityIssue list"
  data_performanceIssues :: "PerformanceIssue list"
  data_unusedFiles :: "FileDetail list"
  data_allFiles :: "FileDetail list"
  data_totalFiles :: int
  data_totalLines :: int
  data_unusedExports :: int
  data_circularDeps :: int
  data_scanProgress :: int
  data_lastScanned :: jsstring

datatype message =
    AnalysisStarted
  | Progress int
  | AnalysisResult report
  | AnalysisFailed

text \<open>What a run does to the outside: messages posted to the webview and error
  notifications shown in the window, in the order in which they happen.\<close>

datatype effect =
    PostMessage message
  | ShowErrorMessage jsstring

text \<open>A thrown value: an \<^verbatim>\<open>Error\<close> object with its message, or anything else with its
  string conversion.\<close>

datatype exn =
    Error jsstring
  | NonError jsstring

fun msg_of :: "exn \<Rightarrow> jsstring" where
  "msg_of (Error m) = m"
| "msg_of (NonError s) = s"

subsection \<open>The host\<close>

record Uri =
  fsPath :: jsstring

record TextDocument =
  getText :: jsstring
  lineCount :: int

text \<open>
  What the editor supplies to one run: whether the webview has been resolved, the names
  of the workspace folders (\<open>None\<close> for \<^verbatim>\<open>undefined\<close>), the files that the file search
  walks, each as the path of its workspace folder and its path relative to that folder
  (or the exception with which the search fails), the outcome of
  \<^verbatim>\<open>openTextDocument\<close> for each file, \<^verbatim>\<open>asRelativePath\<close> and the time string of the clock.
\<close>

record host =
  view :: bool
  workspaceFolders :: "jsstring list option"
  workspaceFiles :: "exn + (jsstring \<times> jsstring) list"
  openTextDocument :: "Uri \<Rightarrow> exn + TextDocument"
  asRelativePath :: "Uri \<Rightarrow> jsstring"
  toLocaleTimeString :: jsstring

subsection \<open>The file search\<close>

text \<open>
  Glob patterns, as far as the two literals of the source need them: a pattern is a
  list of items separated by \<^verbatim>\<open>/\<close>; an item is \<^verbatim>\<open>**\<close>, which stands for any number of
  path segments, or a segment pattern made of \<^verbatim>\<open>*\<close> (any characters of the segment),
  literal characters and a brace list of alternatives. Matching is case sensitive.
\<close>

datatype seg_item = Star | Chars jsstring | Braces "jsstring list"

datatype glob_item = GlobStar | Segment "seg_item list"

type_synonym glob = "glob_item list"

function seg_match :: "seg_item list \<Rightarrow> jsstring \<Rightarrow> bool" where
  "seg_match [] s = (s = [])"
| "seg_match (Star # items) [] = seg_match items []"
| "seg_match (Star # items) (c # s) = (seg_match items (c # s) \<or> seg_match (Star # items) s)"
| "seg_match (Chars l # items) s = (take (length l) s = l \<and> seg_match items (drop (length l) s))"
| "seg_match (Braces [] # items) s = False"
| "seg_match (Braces (l # ls) # items) s =
     ((take (length l) s = l \<and> seg_match items (drop (length l) s)) \<or>
      seg_match (Braces ls # items) s)"
  by pat_completeness auto

termination
  by (relation "measure (\<lambda>(items, s).
        sum_list (map (\<lambda>i. case i of Braces ls \<Rightarrow> Suc (length ls) | _ \<Rightarrow> 1) items) + length s)")
     auto

fun path_match :: "glob \<Rightarrow> jsstring list \<Rightarrow> bool" where
  "path_match [] segs = (segs = [])"
| "path_match (GlobStar # g) [] = path_match g []"
| "path_match (GlobStar # g) (s # segs) = (path_match g (s # segs) \<or> path_match (GlobStar # g) segs)"
| "path_match (Segment items # g) [] = False"
| "path_match (Segment items # g) (s # segs) = (seg_match items s \<and> path_match g segs)"

text \<open>The segments of a path: the pieces between the slashes.\<close>

fun segments :: "jsstring \<Rightarrow> jsstring list" where
  "segments [] = [[]]"
| "segments (c # s) =
     (if c = CHAR_FORWARD_SLASH then [] # segments s
      else (case segments s of [] \<Rightarrow> [[c]] | seg # rest \<Rightarrow> (c # seg) # rest))"

definition glob_match :: "glob \<Rightarrow> jsstring \<Rightarrow> bool" where
  "glob_match g p = path_match g (segments p)"

text \<open>The include pattern \<^verbatim>\<open>**/*.{ts,tsx,js,jsx,py,vue,svelte}\<close> of the scan.\<close>

definition extensions :: "jsstring list" where
  "extensions = [js ''ts'', js ''tsx'', js ''js'', js ''jsx'', js ''py'', js ''vue'', js ''svelte'']"

definition includeGlob :: glob where
  "includeGlob = [GlobStar, Segment [Star, Chars (js ''.''), Braces extensions]]"

text \<open>The exclude pattern \<^verbatim>\<open>**/node_modules/**\<close> of the scan.\<close>

definition excludeGlob :: glob where
  "excludeGlob = [GlobStar, Segment [Chars (js ''node_modules'')], GlobStar]"

text \<open>
  \<^verbatim>\<open>vscode.workspace.findFiles(include, exclude)\<close> belongs to the editor, not to the
  repository; it is modelled after the documentation of the API: the result is the files
  of the workspace whose path relative to their folder matches \<^verbatim>\<open>include\<close> and does not
  match \<^verbatim>\<open>exclude\<close>, each as the \<^verbatim>\<open>Uri\<close> of the folder path joined with the relative
  path; a failing search throws.
\<close>

definition uri_of :: "jsstring \<times> jsstring \<Rightarrow> Uri" where
  "uri_of entry = \<lparr>fsPath = fst entry @ CHAR_FORWARD_SLASH # snd entry\<rparr>"

definition selected :: "glob \<Rightarrow> glob \<Rightarrow> jsstring \<times> jsstring \<Rightarrow> bool" where
  "selected incl excl entry = (glob_match incl (snd entry) \<and> \<not> glob_match excl (snd entry))"

definition findFiles :: "host \<Rightarrow> glob \<Rightarrow> glob \<Rightarrow> exn + Uri list" where
  "findFiles h incl excl =
     (case workspaceFiles h of
        Inl err \<Rightarrow> Inl err
      | Inr entries \<Rightarrow> Inr (map uri_of (filter (selected incl excl) entries)))"

subsection \<open>The scan loop\<close>

text \<open>The variables declared before the loop.\<close>

record locals =
  godFiles :: "FileDetail list"
  securityIssues :: "SecurityIssue list"
  performanceIssues :: "PerformanceIssue list"
  unusedFiles :: "FileDetail list"
  allFiles :: "FileDetail list"
  totalLines :: int
  progress :: nat

definition init_locals :: locals where
  "init_locals =
     \<lparr>godFiles = [], securityIssues = [], performanceIssues = [], unusedFiles = [],
      allFiles = [], totalLines = 0, progress = 0\<rparr>"

text \<open>The inner loop over \<^verbatim>\<open>secPatterns\<close>; \<open>acc\<close> is \<^verbatim>\<open>securityIssues\<close>.\<close>

fun scanSecrets :: "regex list \<Rightarrow> jsstring \<Rightarrow> jsstring \<Rightarrow> SecurityIssue list \<Rightarrow> SecurityIssue list" where
  "scanSecrets [] relativePath text acc = acc"
| "scanSecrets (pattern # rest) relativePath text acc =
     (case js_match text pattern of
        None \<Rightarrow> scanSecrets rest relativePath text acc
      | Some matches \<Rightarrow>
          scanSecrets rest relativePath text
            (acc @ [\<lparr>si_file = relativePath, si_line = 0,
                      si_match = substring (hd matches) 0 40 @ [ellipsis]\<rparr>]))"

text \<open>The body of the loop from the point where the document has been opened.\<close>

definition scanDocument :: "host \<Rightarrow> Uri \<Rightarrow> TextDocument \<Rightarrow> locals \<Rightarrow> locals" where
  "scanDocument h file doc l =
     (let text = getText doc;
          lines = lineCount doc;
          relativePath = asRelativePath h file;
          fileName = basename (fsPath file);
          ext = replace (extname (fsPath file)) CHAR_DOT [];
          size = int (length text);
          l1 = l\<lparr>totalLines := totalLines l + lines\<rparr>;
          fd = \<lparr>fd_name = fileName, fd_path = fsPath file, fd_lines = lines, fd_size = size,
                fd_ext = ext\<rparr>;
          l2 = l1\<lparr>allFiles := allFiles l1 @ [fd]\<rparr>;
          l3 = (if lines > 500 then l2\<lparr>godFiles := godFiles l2 @ [fd]\<rparr> else l2);
          l4 = (if lines < 5 \<and> lines > 0 then l3\<lparr>unusedFiles := unusedFiles l3 @ [fd]\<rparr>
                else l3);
          l5 = l4\<lparr>securityIssues :=
                     scanSecrets secPatterns relativePath text (securityIssues l4)\<rparr>;
          l6 = (case js_match text nestedLoopPattern of
                  None \<Rightarrow> l5
                | Some nestedLoops \<Rightarrow>
                    l5\<lparr>performanceIssues := performanceIssues l5 @
                         [\<lparr>pi_file = relativePath, pi_count = int (length nestedLoops),
                           pi_type = js ''Nested Loops''\<rparr>]\<rparr>);
          l7 = (if js_test evalPattern text
                then l6\<lparr>performanceIssues := performanceIssues l6 @
                         [\<lparr>pi_file = relativePath, pi_count = 1,
                           pi_type = js ''eval() usage''\<rparr>]\<rparr>
                else l6)
      in l7)"

text \<open>\<^verbatim>\<open>Math.round((progress / files.length) * 85)\<close>, with \<open>p\<close> for \<^verbatim>\<open>progress\<close> and
  \<open>n\<close> for \<^verbatim>\<open>files.length\<close>.\<close>

definition progressPct :: "nat \<Rightarrow> nat \<Rightarrow> int" where
  "progressPct p n = Math_round (js_mul (js_div (of_nat p) (of_nat n)) 85)"

text \<open>
  \<^verbatim>\<open>for (const file of files)\<close>: \<open>n\<close> is \<^verbatim>\<open>files.length\<close>, \<open>out\<close> the effects so far.
  An exception of \<^verbatim>\<open>openTextDocument\<close> leaves the loop; what has been posted stays posted.
\<close>

fun scanFiles :: "host \<Rightarrow> nat \<Rightarrow> Uri list \<Rightarrow> locals \<Rightarrow> effect list \<Rightarrow> (exn + locals) \<times> effect list" where
  "scanFiles h n [] l out = (Inr l, out)"
| "scanFiles h n (file # rest) l out =
     (let l1 = l\<lparr>progress := progress l + 1\<rparr>;
          out1 = out @ [PostMessage (Progress (progressPct (progress l1) n))]
      in case openTextDocument h file of
           Inl err \<Rightarrow> (Inl err, out1)
         | Inr doc \<Rightarrow> scanFiles h n rest (scanDocument h file doc l1) out1)"

subsection \<open>Score and report\<close>

definition deductions :: "locals \<Rightarrow> int" where
  "deductions l =
     int (length (securityIssues l)) * 15 + int (length (godFiles l)) * 5 +
     int (length (performanceIssues l)) * 8 + int (length (unusedFiles l)) * 2"

definition healthScore :: "locals \<Rightarrow> int" where
  "healthScore l = max 0 (min 100 (100 - deductions l))"

definition analysisResult :: "host \<Rightarrow> jsstring \<Rightarrow> Uri list \<Rightarrow> locals \<Rightarrow> report" where
  "analysisResult h workspaceName files l =
     \<lparr>data_healthScore = healthScore l,
      data_workspaceName = workspaceName,
      data_godFiles = godFiles l,
      data_securityIssues = securityIssues l,
      data_performanceIssues = performanceIssues l,
      data_unusedFiles = unusedFiles l,
      data_allFiles = allFiles l,
      data_totalFiles = int (length files),
      data_totalLines = totalLines l,
      data_unusedExports = int (length (unusedFiles l)),
      data_circularDeps = 0,
      data_scanProgress = 100,
      data_lastScanned = toLocaleTimeString h\<rparr>"

subsection \<open>analyzeWorkspace\<close>

text \<open>\<^verbatim>\<open>workspaceFolders ? workspaceFolders[0].name : 'Unknown'\<close>: an empty array is
  truthy, and reading \<^verbatim>\<open>name\<close> of its missing first element throws.\<close>

definition workspaceName_of :: "jsstring list option \<Rightarrow> exn + jsstring" where
  "workspaceName_of folders =
     (case folders of
        None \<Rightarrow> Inr (js ''Unknown'')
      | Some [] \<Rightarrow> Inl (Error (js ''Cannot read properties of undefined''))
      | Some (name # _) \<Rightarrow> Inr name)"

text \<open>The \<^verbatim>\<open>try\<close> block.\<close>

definition try_block :: "host \<Rightarrow> jsstring \<Rightarrow> (exn + unit) \<times> effect list" where
  "try_block h workspaceName =
     (case findFiles h includeGlob excludeGlob of
        Inl err \<Rightarrow> (Inl err, [])
      | Inr files \<Rightarrow>
          (case scanFiles h (length files) files init_locals [] of
             (Inl err, out) \<Rightarrow> (Inl err, out)
           | (Inr l, out) \<Rightarrow>
               (Inr (),
                out @ [PostMessage (Progress 100),
                       PostMessage (AnalysisResult (analysisResult h workspaceName files l))])))"

text \<open>The outcome of a call: its effects, and the exception with which the returned
  promise is rejected, if any.\<close>

record outcome =
  effects :: "effect list"
  rejected :: "exn option"

definition analyzeWorkspace :: "host \<Rightarrow> outcome" where
  "analyzeWorkspace h =
     (if \<not> view h then \<lparr>effects = [], rejected = None\<rparr>
      else
        (case workspaceName_of (workspaceFolders h) of
           Inl err \<Rightarrow> \<lparr>effects = [PostMessage AnalysisStarted], rejected = Some err\<rparr>
         | Inr workspaceName \<Rightarrow>
             (case try_block h workspaceName of
                (Inr u, out) \<Rightarrow>
                  \<lparr>effects = PostMessage AnalysisStarted # out, rejected = None\<rparr>
              | (Inl err, out) \<Rightarrow>
                  \<lparr>effects = PostMessage AnalysisStarted # out @
                      [ShowErrorMessage (js ''Analysis failed: '' @ msg_of err),
                       PostMessage AnalysisFailed],
                   rejected = None\<rparr>)))"

subsection \<open>Reading an outcome\<close>

fun posted :: "effect list \<Rightarrow> message list" where
  "posted [] = []"
| "posted (PostMessage m # es) = m # posted es"
| "posted (ShowErrorMessage s # es) = posted es"

fun reports :: "message list \<Rightarrow> report list" where
  "reports [] = []"
| "reports (AnalysisResult r # ms) = r # reports ms"
| "reports (m # ms) = reports ms"

fun progress_values :: "message list \<Rightarrow> int list" where
  "progress_values [] = []"
| "progress_values (Progress v # ms) = v # progress_values ms"
| "progress_values (m # ms) = progress_values ms"

text \<open>The messages and the reports of a run.\<close>

definition events :: "host \<Rightarrow> message list" where
  "events h = posted (effects (analyzeWorkspace h))"

definition results :: "host \<Rightarrow> report list" where
  "results h = reports (events h)"

subsection \<open>Derived notions\<close>

text \<open>The record \<^verbatim>\<open>fd\<close> that the loop body builds for a file.\<close>

definition fileDetail :: "Uri \<Rightarrow> TextDocument \<Rightarrow> FileDetail" where
  "fileDetail file doc =
     \<lparr>fd_name = basename (fsPath file), fd_path = fsPath file, fd_lines = lineCount doc,
      fd_size = int (length (getText doc)),
      fd_ext = replace (extname (fsPath file)) CHAR_DOT []\<rparr>"

text \<open>What the loop body appends to \<^verbatim>\<open>securityIssues\<close> and to
  \<^verbatim>\<open>performanceIssues\<close> for one document.\<close>

definition secretFindings :: "host \<Rightarrow> Uri \<Rightarrow> TextDocument \<Rightarrow> SecurityIssue list" where
  "secretFindings h file doc = scanSecrets secPatterns (asRelativePath h file) (getText doc) []"

definition performanceFindings :: "host \<Rightarrow> Uri \<Rightarrow> TextDocument \<Rightarrow> PerformanceIssue list" where
  "performanceFindings h file doc = performanceIssues (scanDocument h file doc init_locals)"

text \<open>\<^verbatim>\<open>openTextDocument\<close> returns the document.\<close>

definition opens :: "host \<Rightarrow> Uri \<Rightarrow> TextDocument \<Rightarrow> bool" where
  "opens h file doc = (openTextDocument h file = Inr doc)"

text \<open>The progress messages of the iterations \<open>a + 1\<close> to \<open>a + k\<close>.\<close>

definition progress_effects :: "nat \<Rightarrow> nat \<Rightarrow> nat \<Rightarrow> effect list" where
  "progress_effects n a k = map (\<lambda>i. PostMessage (Progress (progressPct i n))) [Suc a..<Suc (a + k)]"

text \<open>
  The files that the loop has processed completely (those before the first one that
  fails to open), and the files whose iteration has begun.
\<close>

definition completed :: "host \<Rightarrow> Uri list \<Rightarrow> nat" where
  "completed h files = length (takeWhile (\<lambda>f. \<not> isl (openTextDocument h f)) files)"

definition started :: "host \<Rightarrow> Uri list \<Rightarrow> nat" where
  "started h files = min (length files) (Suc (completed h files))"

text \<open>The final values of the loop variables when every file opens.\<close>

definition scanned :: "host \<Rightarrow> Uri list \<Rightarrow> TextDocument list \<Rightarrow> locals" where
  "scanned h files docs =
     \<lparr>godFiles = filter (\<lambda>fd. 500 < fd_lines fd) (map2 fileDetail files docs),
      securityIssues = concat (map2 (secretFindings h) files docs),
      performanceIssues = concat (map2 (performanceFindings h) files docs),
      unusedFiles = filter (\<lambda>fd. fd_lines fd < 5 \<and> 0 < fd_lines fd) (map2 fileDetail files docs),
      allFiles = map2 fileDetail files docs,
      totalLines = sum_list (map lineCount docs),
      progress = length files\<rparr>"

text \<open>A string of lowercase letters: every code unit is one of \<open>a\<close> to \<open>z\<close>.\<close>

definition lowercase :: "jsstring \<Rightarrow> bool" where
  "lowercase s = list_all (\<lambda>c. 0x61 \<le> c \<and> c \<le> 0x7A) s"

subsection \<open>Example workspaces\<close>

text \<open>
  A workspace folder \<^verbatim>\<open>/w\<close> with the listed files, each with the outcome of opening it;
  the webview is resolved and relative paths drop the prefix \<^verbatim>\<open>/w/\<close>.
\<close>

definition workspace_host :: "(jsstring \<times> (exn + TextDocument)) list \<Rightarrow> host" where
  "workspace_host fs =
     \<lparr>view = True, workspaceFolders = Some [js ''w''],
      workspaceFiles = Inr (map (\<lambda>(p, d). (js ''/w'', drop 3 p)) fs),
      openTextDocument = (\<lambda>u. case map_of fs (fsPath u) of
                                  None \<Rightarrow> Inl (Error (js ''file not found''))
                                | Some d \<Rightarrow> d),
      asRelativePath = (\<lambda>u. drop 3 (fsPath u)),
      toLocaleTimeString = js ''12:00:00''\<rparr>"

text \<open>An empty workspace.\<close>

definition host0 :: host where
  "host0 = workspace_host []"

definition report0 :: report where
  "report0 =
     \<lparr>data_healthScore = 100, data_workspaceName = js ''w'', data_godFiles = [],
      data_securityIssues = [], data_performanceIssues = [], data_unusedFiles = [],
      data_allFiles = [], data_totalFiles = 0, data_totalLines = 0, data_unusedExports = 0,
      data_circularDeps = 0, data_scanProgress = 100, data_lastScanned = js ''12:00:00''\<rparr>"

text \<open>An opened workspace without folders: the list of workspace folders is the empty
  array.\<close>

definition hostNoFolders :: host where
  "hostNoFolders = host0\<lparr>workspaceFolders := Some []\<rparr>"

text \<open>One file of one line that assigns three tokens and holds a vendor key of 43
  characters.\<close>

definition textE :: jsstring where
  "textE = js (''TOKEN=\"aaaaaaaa1\" TOKEN=\"bbbbbbbb2\" TOKEN=\"cccccccc3\" '' @
               ''sk-0123456789abcdefghij0123456789abcdefghij'')"

definition uriE :: Uri where
  "uriE = \<lparr>fsPath = js ''/w/keys.js''\<rparr>"

definition docE :: TextDocument where
  "docE = \<lparr>getText = textE, lineCount = 1\<rparr>"

definition hostE :: host where
  "hostE = workspace_host [(js ''/w/keys.js'', Inr docE)]"

definition fileE :: FileDetail where
  "fileE = \<lparr>fd_name = js ''keys.js'', fd_path = js ''/w/keys.js'', fd_lines = 1, fd_size = 97,
            fd_ext = js ''js''\<rparr>"

definition reportE :: report where
  "reportE =
     \<lparr>data_healthScore = 68, data_workspaceName = js ''w'', data_godFiles = [],
      data_securityIssues =
        [\<lparr>si_file = js ''keys.js'', si_line = 0,
          si_match = js ''TOKEN=\"aaaaaaaa1\"'' @ [ellipsis]\<rparr>,
         \<lparr>si_file = js ''keys.js'', si_line = 0,
          si_match = js ''sk-0123456789abcdefghij0123456789abcdefg'' @ [ellipsis]\<rparr>],
      data_performanceIssues = [], data_unusedFiles = [fileE], data_allFiles = [fileE],
      data_totalFiles = 1, data_totalLines = 1, data_unusedExports = 1, data_circularDeps = 0,
      data_scanProgress = 100, data_lastScanned = js ''12:00:00''\<rparr>"

text \<open>One file with the nested loops of scenario C.\<close>

definition textC :: jsstring where
  "textC = js ''for (i=0;i<n;i++) { for (j=0;j<n;j++) {} }''"

definition uriC :: Uri where
  "uriC = \<lparr>fsPath = js ''/w/loops.js''\<rparr>"

definition docC :: TextDocument where
  "docC = \<lparr>getText = textC, lineCount = 1\<rparr>"

definition hostC :: host where
  "hostC = workspace_host [(js ''/w/loops.js'', Inr docC)]"

definition fileC :: FileDetail where
  "fileC = \<lparr>fd_name = js ''loops.js'', fd_path = js ''/w/loops.js'', fd_lines = 1, fd_size = 42,
            fd_ext = js ''js''\<rparr>"

definition reportC :: report where
  "reportC =
     \<lparr>data_healthScore = 90, data_workspaceName = js ''w'', data_godFiles = [],
      data_securityIssues = [],
      data_performanceIssues =
        [\<lparr>pi_file = js ''loops.js'', pi_count = 1, pi_type = js ''Nested Loops''\<rparr>],
      data_unusedFiles = [fileC], data_allFiles = [fileC],
      data_totalFiles = 1, data_totalLines = 1, data_unusedExports = 1, data_circularDeps = 0,
      data_scanProgress = 100, data_lastScanned = js ''12:00:00''\<rparr>"

text \<open>One file in which the nested-loop pattern matches twice, and which calls
  \<^verbatim>\<open>eval\<close>.\<close>

definition textN :: jsstring where
  "textN = js ''for(;;){for(;;){}} for(;;){for(;;){}} eval(x)''"

definition uriN :: Uri where
  "uriN = \<lparr>fsPath = js ''/w/nested.js''\<rparr>"

definition docN :: TextDocument where
  "docN = \<lparr>getText = textN, lineCount = 10\<rparr>"

definition hostN :: host where
  "hostN = workspace_host [(js ''/w/nested.js'', Inr docN)]"

text \<open>One file of 501 lines: 500 line feeds.\<close>

definition textB :: jsstring where
  "textB = replicate 500 0x0A"

definition uriB :: Uri where
  "uriB = \<lparr>fsPath = js ''/w/big.ts''\<rparr>"

definition docB :: TextDocument where
  "docB = \<lparr>getText = textB, lineCount = 501\<rparr>"

definition hostB :: host where
  "hostB = workspace_host [(js ''/w/big.ts'', Inr docB)]"

definition fileB :: FileDetail where
  "fileB = \<lparr>fd_name = js ''big.ts'', fd_path = js ''/w/big.ts'', fd_lines = 501, fd_size = 500,
            fd_ext = js ''ts''\<rparr>"

definition reportB :: report where
  "reportB =
     \<lparr>data_healthScore = 95, data_workspaceName = js ''w'', data_godFiles = [fileB],
      data_securityIssues = [], data_performanceIssues = [], data_unusedFiles = [],
      data_allFiles = [fileB], data_totalFiles = 1, data_totalLines = 501,
      data_unusedExports = 0, data_circularDeps = 0, data_scanProgress = 100,
      data_lastScanned = js ''12:00:00''\<rparr>"

text \<open>Three files; in the second workspace the middle one cannot be opened.\<close>

definition filesF :: "Uri list" where
  "filesF = [\<lparr>fsPath = js ''/w/a.ts''\<rparr>, \<lparr>fsPath = js ''/w/b.ts''\<rparr>, \<lparr>fsPath = js ''/w/c.ts''\<rparr>]"

definition docF :: TextDocument where
  "docF = \<lparr>getText = js ''x'', lineCount = 10\<rparr>"

definition host3 :: host where
  "host3 = workspace_host
     [(js ''/w/a.ts'', Inr docF), (js ''/w/b.ts'', Inr docF), (js ''/w/c.ts'', Inr docF)]"

definition hostF :: host where
  "hostF = workspace_host
     [(js ''/w/a.ts'', Inr docF),
      (js ''/w/b.ts'', Inl (Error (js ''EACCES''))),
      (js ''/w/c.ts'', Inr docF)]"

text \<open>
  A workspace that also holds a file whose extension is written in capitals, a file
  whose name begins with its only dot, and a file below \<^verbatim>\<open>node_modules\<close>; the search
  selects the two files of \<^verbatim>\<open>filesCaps\<close>.
\<close>

definition filesCaps :: "Uri list" where
  "filesCaps = [\<lparr>fsPath = js ''/w/lib/b.ts''\<rparr>, \<lparr>fsPath = js ''/w/.ts''\<rparr>]"

definition hostCaps :: host where
  "hostCaps = workspace_host
     [(js ''/w/A.TS'', Inr docF), (js ''/w/lib/b.ts'', Inr docF), (js ''/w/.ts'', Inr docF),
      (js ''/w/node_modules/x/c.js'', Inr docF)]"

definition fileLower :: FileDetail where
  "fileLower = \<lparr>fd_name = js ''b.ts'', fd_path = js ''/w/lib/b.ts'', fd_lines = 10, fd_size = 1,
                fd_ext = js ''ts''\<rparr>"

definition fileDot :: FileDetail where
  "fileDot = \<lparr>fd_name = js ''.ts'', fd_path = js ''/w/.ts'', fd_lines = 10, fd_size = 1,
              fd_ext = []\<rparr>"

definition reportCaps :: report where
  "reportCaps =
     \<lparr>data_healthScore = 100, data_workspaceName = js ''w'', data_godFiles = [],
      data_securityIssues = [], data_performanceIssues = [], data_unusedFiles = [],
      data_allFiles = [fileLower, fileDot], data_totalFiles = 2, data_totalLines = 20,
      data_unusedExports = 0, data_circularDeps = 0, data_scanProgress = 100,
      data_lastScanned = js ''12:00:00''\<rparr>"

subsection \<open>Statements of the specification that the code does not meet\<close>

text \<open>The god files, and the near-empty files, as a strict subset of all files.\<close>

definition god_files_strict_subset :: "report \<Rightarrow> bool" where
  "god_files_strict_subset r = (set (data_godFiles r) \<subset> set (data_allFiles r))"

definition near_empty_strict_subset :: "report \<Rightarrow> bool" where
  "near_empty_strict_subset r = (set (data_unusedFiles r) \<subset> set (data_allFiles r))"

text \<open>The progress values of the loop if one notification followed each completed file.\<close>

definition progress_after_completion :: "host \<Rightarrow> Uri list \<Rightarrow> int list" where
  "progress_after_completion h files =
     map (\<lambda>i. progressPct i (length files)) [1..<Suc (completed h files)]"

subsection \<open>The invariant of the loop of \<^verbatim>\<open>path.extname\<close>\<close>

text \<open>
  When the indices from \<open>i\<close> on have been visited: \<^verbatim>\<open>end\<close> is set before
  \<^verbatim>\<open>startDot\<close>; once set it lies beyond \<open>i\<close> and within the string; no dot lies
  between the visited part and \<^verbatim>\<open>end\<close> while \<^verbatim>\<open>startDot\<close> is unset; and once
  \<^verbatim>\<open>startDot\<close> is set it is the index of a dot with no dot between it and \<^verbatim>\<open>end\<close>.
\<close>

definition ext_inv :: "jsstring \<Rightarrow> nat \<Rightarrow> ext_vars \<Rightarrow> bool" where
  "ext_inv path i v \<longleftrightarrow>
     (end' v = - 1 \<longrightarrow> startDot v = - 1) \<and>
     (end' v \<noteq> - 1 \<longrightarrow> int i < end' v \<and> end' v \<le> int (length path)) \<and>
     (startDot v = - 1 \<longrightarrow> (\<forall>j. i \<le> j \<and> int j < end' v \<longrightarrow> path ! j \<noteq> CHAR_DOT)) \<and>
     (startDot v \<noteq> - 1 \<longrightarrow>
        int i \<le> startDot v \<and> startDot v < end' v \<and> path ! nat (startDot v) = CHAR_DOT \<and>
        (\<forall>j. startDot v < int j \<and> int j < end' v \<longrightarrow> path ! j \<noteq> CHAR_DOT))"

definition ext_post :: "jsstring \<Rightarrow> ext_vars \<Rightarrow> bool" where
  "ext_post path v \<longleftrightarrow>
     startDot v = - 1 \<or> end' v = - 1 \<or>
     (0 \<le> startDot v \<and> startDot v < end' v \<and> end' v \<le> int (length path) \<and>
      path ! nat (startDot v) = CHAR_DOT \<and>
      (\<forall>j. startDot v < int j \<and> int j < end' v \<longrightarrow> path ! j \<noteq> CHAR_DOT))"

section \<open>The loop and the run\<close>

text \<open>Facts for evaluating the file search on a concrete workspace.\<close>

lemmas glob_eval = findFiles_def selected_def uri_of_def glob_match_def includeGlob_def
  excludeGlob_def extensions_def js_def ch_def CHAR_FORWARD_SLASH_def


lemma scanSecrets_acc:
  "scanSecrets ps rel text acc = acc @ scanSecrets ps rel text []"
proof (induction ps arbitrary: acc)
  case Nil
  show ?case by simp
next
  case (Cons p ps)
  show ?case
  proof (cases "js_match text p")
    case None
    then show ?thesis using Cons.IH [of acc] by simp
  next
    case (Some ms)
    then show ?thesis
      using Cons.IH [of "acc @ [\<lparr>si_file = rel, si_line = 0, si_match = substring (hd ms) 0 40 @ [ellipsis]\<rparr>]"]
            Cons.IH [of "[\<lparr>si_file = rel, si_line = 0, si_match = substring (hd ms) 0 40 @ [ellipsis]\<rparr>]"]
      by simp
  qed
qed

lemma scanDocument_progress: "progress (scanDocument h f d l) = progress l"
  by (simp add: scanDocument_def Let_def split: option.splits)

lemma scanDocument_totalLines: "totalLines (scanDocument h f d l) = totalLines l + lineCount d"
  by (simp add: scanDocument_def Let_def split: option.splits)

lemma scanDocument_allFiles: "allFiles (scanDocument h f d l) = allFiles l @ [fileDetail f d]"
  by (simp add: scanDocument_def Let_def fileDetail_def split: option.splits)

lemma scanDocument_godFiles:
  "godFiles (scanDocument h f d l) = godFiles l @ filter (\<lambda>fd. 500 < fd_lines fd) [fileDetail f d]"
  by (simp add: scanDocument_def Let_def fileDetail_def split: option.splits)

lemma scanDocument_unusedFiles:
  "unusedFiles (scanDocument h f d l) =
     unusedFiles l @ filter (\<lambda>fd. fd_lines fd < 5 \<and> 0 < fd_lines fd) [fileDetail f d]"
  by (simp add: scanDocument_def Let_def fileDetail_def split: option.splits)

lemma scanDocument_securityIssues:
  "securityIssues (scanDocument h f d l) = securityIssues l @ secretFindings h f d"
  using scanSecrets_acc [of secPatterns "asRelativePath h f" "getText d" "securityIssues l"]
  by (simp add: scanDocument_def Let_def secretFindings_def split: option.splits)

lemma scanDocument_performanceIssues:
  "performanceIssues (scanDocument h f d l) = performanceIssues l @ performanceFindings h f d"
  by (simp add: scanDocument_def Let_def performanceFindings_def init_locals_def split: option.splits)

lemma progress_effects_0: "progress_effects n a 0 = []"
  by (simp add: progress_effects_def)

lemma progress_effects_Suc:
  "progress_effects n a (Suc k) = PostMessage (Progress (progressPct (Suc a) n)) # progress_effects n (Suc a) k"
proof -
  have "[Suc a..<Suc (a + Suc k)] = Suc a # [Suc (Suc a)..<Suc (Suc a + k)]"
    by (subst upt_rec) simp
  then show ?thesis by (simp add: progress_effects_def)
qed

lemma scanFiles_success:
  assumes "list_all2 (opens h) files docs"
  shows "\<exists>l'. scanFiles h n files l out = (Inr l', out @ progress_effects n (progress l) (length files)) \<and>
           progress l' = progress l + length files \<and>
           totalLines l' = totalLines l + sum_list (map lineCount docs) \<and>
           allFiles l' = allFiles l @ map2 fileDetail files docs \<and>
           godFiles l' = godFiles l @ filter (\<lambda>fd. 500 < fd_lines fd) (map2 fileDetail files docs) \<and>
           unusedFiles l' = unusedFiles l @
             filter (\<lambda>fd. fd_lines fd < 5 \<and> 0 < fd_lines fd) (map2 fileDetail files docs) \<and>
           securityIssues l' = securityIssues l @ concat (map2 (secretFindings h) files docs) \<and>
           performanceIssues l' =
             performanceIssues l @ concat (map2 (performanceFindings h) files docs)"
  using assms
proof (induction arbitrary: l out rule: list_all2_induct)
  case Nil
  show ?case by (simp add: progress_effects_0)
next
  case (Cons f fs d ds)
  let ?l1 = "scanDocument h f d (l\<lparr>progress := progress l + 1\<rparr>)"
  let ?out1 = "out @ [PostMessage (Progress (progressPct (Suc (progress l)) n))]"
  from Cons.IH [of ?l1 ?out1] obtain l' where
    run: "scanFiles h n fs ?l1 ?out1 = (Inr l', ?out1 @ progress_effects n (progress ?l1) (length fs))"
    and fields: "progress l' = progress ?l1 + length fs"
      "totalLines l' = totalLines ?l1 + sum_list (map lineCount ds)"
      "allFiles l' = allFiles ?l1 @ map2 fileDetail fs ds"
      "godFiles l' = godFiles ?l1 @ filter (\<lambda>fd. 500 < fd_lines fd) (map2 fileDetail fs ds)"
      "unusedFiles l' = unusedFiles ?l1 @
         filter (\<lambda>fd. fd_lines fd < 5 \<and> 0 < fd_lines fd) (map2 fileDetail fs ds)"
      "securityIssues l' = securityIssues ?l1 @ concat (map2 (secretFindings h) fs ds)"
      "performanceIssues l' = performanceIssues ?l1 @ concat (map2 (performanceFindings h) fs ds)"
    by blast
  have step: "scanFiles h n (f # fs) l out = scanFiles h n fs ?l1 ?out1"
    using Cons.hyps(1) by (simp add: opens_def Let_def)
  have "scanFiles h n (f # fs) l out = (Inr l', out @ progress_effects n (progress l) (length (f # fs)))"
    using run step by (simp add: progress_effects_Suc scanDocument_progress)
  moreover have "progress l' = progress l + length (f # fs)"
    using fields(1) by (simp add: scanDocument_progress)
  moreover have "totalLines l' = totalLines l + sum_list (map lineCount (d # ds))"
    using fields(2) by (simp add: scanDocument_totalLines)
  moreover have "allFiles l' = allFiles l @ map2 fileDetail (f # fs) (d # ds)"
    using fields(3) by (simp add: scanDocument_allFiles)
  moreover have "godFiles l' = godFiles l @ filter (\<lambda>fd. 500 < fd_lines fd) (map2 fileDetail (f # fs) (d # ds))"
    using fields(4) by (simp add: scanDocument_godFiles)
  moreover have "unusedFiles l' = unusedFiles l @
      filter (\<lambda>fd. fd_lines fd < 5 \<and> 0 < fd_lines fd) (map2 fileDetail (f # fs) (d # ds))"
    using fields(5) by (simp add: scanDocument_unusedFiles)
  moreover have "securityIssues l' = securityIssues l @ concat (map2 (secretFindings h) (f # fs) (d # ds))"
    using fields(6) by (simp add: scanDocument_securityIssues)
  moreover have "performanceIssues l' =
      performanceIssues l @ concat (map2 (performanceFindings h) (f # fs) (d # ds))"
    using fields(7) by (simp add: scanDocument_performanceIssues)
  ultimately show ?case by blast
qed

lemma scanFiles_failure:
  assumes "list_all2 (opens h) pre docs" and "openTextDocument h f = Inl err"
  shows "scanFiles h n (pre @ f # post) l out =
           (Inl err, out @ progress_effects n (progress l) (Suc (length pre)))"
  using assms(1)
proof (induction arbitrary: l out rule: list_all2_induct)
  case Nil
  show ?case using assms(2) by (simp add: Let_def progress_effects_Suc progress_effects_0)
next
  case (Cons g gs d ds)
  show ?case
    using Cons.hyps(1)
      Cons.IH [of "scanDocument h g d (l\<lparr>progress := progress l + 1\<rparr>)"
                  "out @ [PostMessage (Progress (progressPct (Suc (progress l)) n))]"]
    by (simp add: opens_def Let_def progress_effects_Suc scanDocument_progress)
qed

lemma files_split:
  "(\<exists>docs. list_all2 (opens h) files docs) \<or>
   (\<exists>pre f post docs err. files = pre @ f # post \<and> list_all2 (opens h) pre docs \<and>
      openTextDocument h f = Inl err)"
proof (induction files)
  case Nil
  show ?case by simp
next
  case (Cons g gs)
  show ?case
  proof (cases "openTextDocument h g")
    case (Inl err)
    then have "g # gs = [] @ g # gs \<and> list_all2 (opens h) [] [] \<and> openTextDocument h g = Inl err"
      by simp
    then show ?thesis by blast
  next
    case (Inr d)
    from Cons.IH show ?thesis
    proof
      assume "\<exists>docs. list_all2 (opens h) gs docs"
      then obtain docs where "list_all2 (opens h) gs docs" ..
      then have "list_all2 (opens h) (g # gs) (d # docs)" using Inr by (simp add: opens_def)
      then show ?thesis by blast
    next
      assume "\<exists>pre f post docs err. gs = pre @ f # post \<and> list_all2 (opens h) pre docs \<and>
        openTextDocument h f = Inl err"
      then obtain pre f post docs err where
        "gs = pre @ f # post" "list_all2 (opens h) pre docs" "openTextDocument h f = Inl err"
        by blast
      then have "g # gs = (g # pre) @ f # post \<and> list_all2 (opens h) (g # pre) (d # docs) \<and>
        openTextDocument h f = Inl err"
        using Inr by (simp add: opens_def)
      then show ?thesis by blast
    qed
  qed
qed

lemma posted_append: "posted (xs @ ys) = posted xs @ posted ys"
  by (induction xs rule: posted.induct) simp_all

lemma posted_PostMessage: "posted (map (\<lambda>i. PostMessage (g i)) xs) = map g xs"
  by (induction xs) simp_all

lemma posted_progress_effects:
  "posted (progress_effects n a k) = map (\<lambda>i. Progress (progressPct i n)) [Suc a..<Suc (a + k)]"
  unfolding progress_effects_def by (rule posted_PostMessage)

lemma reports_append: "reports (xs @ ys) = reports xs @ reports ys"
  by (induction xs rule: reports.induct) simp_all

lemma reports_Progress: "reports (map (\<lambda>i. Progress (g i)) xs) = []"
  by (induction xs) simp_all

lemma progress_values_append: "progress_values (xs @ ys) = progress_values xs @ progress_values ys"
  by (induction xs rule: progress_values.induct) simp_all

lemma progress_values_Progress: "progress_values (map (\<lambda>i. Progress (g i)) xs) = map g xs"
  by (induction xs) simp_all

lemma events_no_view: "\<not> view h \<Longrightarrow> events h = []"
  by (simp add: events_def analyzeWorkspace_def)

lemma events_no_name:
  "view h \<Longrightarrow> workspaceName_of (workspaceFolders h) = Inl err \<Longrightarrow> events h = [AnalysisStarted]"
  by (simp add: events_def analyzeWorkspace_def)

lemma events_findFiles_failure:
  "view h \<Longrightarrow> workspaceName_of (workspaceFolders h) = Inr w \<Longrightarrow> findFiles h includeGlob excludeGlob = Inl err \<Longrightarrow>
   events h = [AnalysisStarted, AnalysisFailed]"
  by (simp add: events_def analyzeWorkspace_def try_block_def)

lemma events_failure:
  assumes "view h" and "workspaceName_of (workspaceFolders h) = Inr w"
    and "findFiles h includeGlob excludeGlob = Inr (pre @ f # post)" and "list_all2 (opens h) pre docs"
    and "openTextDocument h f = Inl err"
  shows "events h = AnalysisStarted #
           map (\<lambda>i. Progress (progressPct i (length (pre @ f # post)))) [1..<Suc (Suc (length pre))] @
           [AnalysisFailed]"
  using assms(1-3) scanFiles_failure [OF assms(4,5), of "length (pre @ f # post)" post init_locals "[]"]
  by (simp add: events_def analyzeWorkspace_def try_block_def posted_append posted_progress_effects
        init_locals_def)

lemma events_success:
  assumes "view h" and "workspaceName_of (workspaceFolders h) = Inr w"
    and "findFiles h includeGlob excludeGlob = Inr files"
    and "scanFiles h (length files) files init_locals [] = (Inr l', progress_effects (length files) 0 (length files))"
  shows "events h = AnalysisStarted #
           map (\<lambda>i. Progress (progressPct i (length files))) [1..<Suc (length files)] @
           [Progress 100, AnalysisResult (analysisResult h w files l')]"
  using assms
  by (simp add: events_def analyzeWorkspace_def try_block_def posted_append posted_progress_effects)

lemma results_cases:
  assumes "r \<in> set (results h)"
  shows "\<exists>w files docs l'. view h \<and> workspaceName_of (workspaceFolders h) = Inr w \<and>
           findFiles h includeGlob excludeGlob = Inr files \<and> list_all2 (opens h) files docs \<and>
           scanFiles h (length files) files init_locals [] =
             (Inr l', progress_effects (length files) 0 (length files)) \<and>
           results h = [r] \<and> r = analysisResult h w files l'"
proof (cases "view h")
  case False
  then show ?thesis using assms by (simp add: results_def events_no_view)
next
  case True
  show ?thesis
  proof (cases "workspaceName_of (workspaceFolders h)")
    case (Inl err)
    then show ?thesis using assms True by (simp add: results_def events_no_name)
  next
    case (Inr w)
    show ?thesis
    proof (cases "findFiles h includeGlob excludeGlob")
      case (Inl err)
      then show ?thesis using assms True Inr by (simp add: results_def events_findFiles_failure)
    next
      case ff: (Inr files)
      from files_split [of h files] show ?thesis
      proof
        assume "\<exists>docs. list_all2 (opens h) files docs"
        then obtain docs where docs: "list_all2 (opens h) files docs" ..
        from scanFiles_success [OF docs, of "length files" init_locals "[]"] obtain l' where
          run: "scanFiles h (length files) files init_locals [] =
                  (Inr l', progress_effects (length files) 0 (length files))"
          by (auto simp: init_locals_def)
        have "results h = [analysisResult h w files l']"
          using events_success [OF True Inr ff run]
          by (simp add: results_def reports_append reports_Progress)
        then show ?thesis using assms True Inr ff docs run by auto
      next
        assume "\<exists>pre f post docs err. files = pre @ f # post \<and> list_all2 (opens h) pre docs \<and>
          openTextDocument h f = Inl err"
        then obtain pre f post docs err where
          split: "files = pre @ f # post" "list_all2 (opens h) pre docs" "openTextDocument h f = Inl err"
          by blast
        have "results h = []"
          using events_failure [OF True Inr ff [unfolded split(1)] split(2,3)]
          by (simp add: results_def reports_append reports_Progress)
        then show ?thesis using assms by simp
      qed
    qed
  qed
qed

lemma scanFiles_scanned:
  assumes "list_all2 (opens h) files docs"
  shows "scanFiles h n files init_locals [] = (Inr (scanned h files docs), progress_effects n 0 (length files))"
proof -
  from scanFiles_success [OF assms, of n init_locals "[]"] obtain l' where
    run: "scanFiles h n files init_locals [] = (Inr l', progress_effects n 0 (length files))"
    and fields: "progress l' = length files"
      "totalLines l' = sum_list (map lineCount docs)"
      "allFiles l' = map2 fileDetail files docs"
      "godFiles l' = filter (\<lambda>fd. 500 < fd_lines fd) (map2 fileDetail files docs)"
      "unusedFiles l' = filter (\<lambda>fd. fd_lines fd < 5 \<and> 0 < fd_lines fd) (map2 fileDetail files docs)"
      "securityIssues l' = concat (map2 (secretFindings h) files docs)"
      "performanceIssues l' = concat (map2 (performanceFindings h) files docs)"
    by (auto simp: init_locals_def)
  have "l' = scanned h files docs"
    using fields by (simp add: scanned_def)
  with run show ?thesis by simp
qed

lemma events_scanned:
  assumes "view h" and "workspaceName_of (workspaceFolders h) = Inr w"
    and "findFiles h includeGlob excludeGlob = Inr files" and "list_all2 (opens h) files docs"
  shows "events h = AnalysisStarted #
           map (\<lambda>i. Progress (progressPct i (length files))) [1..<Suc (length files)] @
           [Progress 100, AnalysisResult (analysisResult h w files (scanned h files docs))]"
  using events_success [OF assms(1-3) scanFiles_scanned [OF assms(4)]] .

lemma secretFindings_eq:
  "secretFindings h file doc =
     concat (map (\<lambda>pattern. case js_match (getText doc) pattern of
                    None \<Rightarrow> []
                  | Some matches \<Rightarrow>
                      [\<lparr>si_file = asRelativePath h file, si_line = 0,
                        si_match = take 40 (hd matches) @ [ellipsis]\<rparr>]) secPatterns)"
proof -
  have "scanSecrets ps rel t acc =
          acc @ concat (map (\<lambda>pattern. case js_match t pattern of
                    None \<Rightarrow> []
                  | Some matches \<Rightarrow>
                      [\<lparr>si_file = rel, si_line = 0, si_match = take 40 (hd matches) @ [ellipsis]\<rparr>]) ps)"
    for ps rel t acc
    by (induction ps arbitrary: acc) (simp_all add: substring_def split: option.splits)
  then show ?thesis by (simp add: secretFindings_def)
qed

lemma performanceFindings_eq:
  "performanceFindings h file doc =
     (case js_match (getText doc) nestedLoopPattern of
        None \<Rightarrow> []
      | Some nestedLoops \<Rightarrow>
          [\<lparr>pi_file = asRelativePath h file, pi_count = int (length nestedLoops),
            pi_type = js ''Nested Loops''\<rparr>]) @
     (if js_test evalPattern (getText doc)
      then [\<lparr>pi_file = asRelativePath h file, pi_count = 1, pi_type = js ''eval() usage''\<rparr>]
      else [])"
  by (simp add: performanceFindings_def scanDocument_def Let_def init_locals_def split: option.splits)

subsection \<open>The matches of a global search\<close>

text \<open>
  \<^verbatim>\<open>match\<close> returns \<^verbatim>\<open>null\<close> exactly when the pattern matches at no index of the text,
  and every string it returns is the match that the engine reports at some index.
\<close>

lemma prev_at_Cons: "prev_at p (c # s) (Suc i) = prev_at (Some c) s i"
  by (cases i) (simp_all add: prev_at_def head_def)

lemma match_g_Nil_iff:
  "match_g r p 0 s = [] \<longleftrightarrow> (\<forall>i\<le>length s. ends r (prev_at p s i) (drop i s) = [])"
proof (induction s arbitrary: p)
  case Nil
  then show ?case by (simp add: prev_at_def)
next
  case (Cons c s)
  have "(\<forall>i\<le>length (c # s). ends r (prev_at p (c # s) i) (drop i (c # s)) = []) \<longleftrightarrow>
      ends r p (c # s) = [] \<and> (\<forall>i\<le>length s. ends r (prev_at (Some c) s i) (drop i s) = [])"
    (is "?L \<longleftrightarrow> ?R")
  proof
    assume l: ?L
    have "ends r (prev_at p (c # s) 0) (drop 0 (c # s)) = []"
      using l by blast
    moreover have "ends r (prev_at (Some c) s i) (drop i s) = []" if "i \<le> length s" for i
      using l [rule_format, of "Suc i"] that by (simp add: prev_at_Cons)
    ultimately show ?R by (simp add: prev_at_def)
  next
    assume r: ?R
    show ?L
    proof (intro allI impI)
      fix i assume "i \<le> length (c # s)"
      then show "ends r (prev_at p (c # s) i) (drop i (c # s)) = []"
        using r by (cases i) (simp_all add: prev_at_Cons, simp add: prev_at_def)
    qed
  qed
  moreover have "match_g r p 0 (c # s) = [] \<longleftrightarrow> ends r p (c # s) = [] \<and> match_g r (Some c) 0 s = []"
    by (simp split: list.splits)
  ultimately show ?case using Cons.IH by simp
qed

lemma js_match_None_iff:
  "js_match s r = None \<longleftrightarrow> (\<forall>i\<le>length s. ends r (prev_at None s i) (drop i s) = [])"
proof -
  have "js_match s r = None \<longleftrightarrow> match_g r None 0 s = []"
    by (cases "match_g r None 0 s") (simp_all add: js_match_def)
  then show ?thesis by (simp only: match_g_Nil_iff)
qed

lemma match_g_member:
  "m \<in> set (match_g r p skip s) \<Longrightarrow>
   \<exists>i n ns. skip \<le> i \<and> i \<le> length s \<and> ends r (prev_at p s i) (drop i s) = n # ns \<and>
     m = take n (drop i s)"
proof (induction r p skip s rule: match_g.induct)
  case (1 r p skip)
  then have "skip = 0" "ends r p [] \<noteq> []" "m = []"
    by (simp_all split: if_splits)
  then obtain n ns where "ends r p [] = n # ns" by (cases "ends r p []") auto
  then show ?case using \<open>skip = 0\<close> \<open>m = []\<close> by (simp add: prev_at_def)
next
  case (2 r p skip c s)
  have lift: "\<exists>i n ns. skip \<le> i \<and> i \<le> length (c # s) \<and>
      ends r (prev_at p (c # s) i) (drop i (c # s)) = n # ns \<and> m = take n (drop i (c # s))"
    if "k \<le> i" "i \<le> length s" "ends r (prev_at (Some c) s i) (drop i s) = n # ns"
      "m = take n (drop i s)" "skip \<le> Suc k" for k i n ns
  proof -
    have "skip \<le> Suc i" "Suc i \<le> length (c # s)"
      "ends r (prev_at p (c # s) (Suc i)) (drop (Suc i) (c # s)) = n # ns"
      "m = take n (drop (Suc i) (c # s))"
      using that by (simp_all add: prev_at_Cons)
    then show ?thesis by blast
  qed
  show ?case
  proof (cases "0 < skip")
    case True
    then have "m \<in> set (match_g r (Some c) (skip - 1) s)"
      using "2.prems" by simp
    from "2.IH"(1) [OF True this] obtain i n ns where
      "skip - 1 \<le> i" "i \<le> length s" "ends r (prev_at (Some c) s i) (drop i s) = n # ns"
      "m = take n (drop i s)"
      by blast
    then show ?thesis using lift [of "skip - 1" i n ns] by simp
  next
    case False
    show ?thesis
    proof (cases "ends r p (c # s)")
      case Nil
      then have "m \<in> set (match_g r (Some c) 0 s)"
        using "2.prems" False by simp
      from "2.IH"(2) [OF False Nil this] obtain i n ns where
        "0 \<le> i" "i \<le> length s" "ends r (prev_at (Some c) s i) (drop i s) = n # ns"
        "m = take n (drop i s)"
        by blast
      then show ?thesis using lift [of 0 i n ns] False by simp
    next
      case (Cons n ns)
      then have "m = take n (c # s) \<or> m \<in> set (match_g r (Some c) (n - 1) s)"
        using "2.prems" False by simp
      then show ?thesis
      proof
        assume "m = take n (c # s)"
        then have "skip \<le> 0 \<and> 0 \<le> length (c # s) \<and>
            ends r (prev_at p (c # s) 0) (drop 0 (c # s)) = n # ns \<and> m = take n (drop 0 (c # s))"
          using False Cons by (simp add: prev_at_def)
        then show ?thesis by blast
      next
        assume "m \<in> set (match_g r (Some c) (n - 1) s)"
        from "2.IH"(3) [OF False Cons this] obtain i n' ns' where
          "n - 1 \<le> i" "i \<le> length s" "ends r (prev_at (Some c) s i) (drop i s) = n' # ns'"
          "m = take n' (drop i s)"
          by blast
        then show ?thesis using lift [of "n - 1" i n' ns'] False by simp
      qed
    qed
  qed
qed

subsection \<open>Evaluating the example workspaces\<close>

lemmas regex_eval = js_match_def js_test_def js_def ch_def in_ranges_def white_space_def
  line_terminator_def word_char_def head_def prev_at_def after_def alnum_def token_char_def quote_def

lemma secrets_textE: "js_match textE (secPatterns ! 0) = Some [js ''TOKEN=\"aaaaaaaa1\"'', js ''TOKEN=\"bbbbbbbb2\"'', js ''TOKEN=\"cccccccc3\"'']"
  "js_match textE (secPatterns ! Suc 0) = None"
  "js_match textE (secPatterns ! 2) = Some [js ''sk-0123456789abcdefghij0123456789abcdefghij'']"
  by (simp_all add: secPatterns_def textE_def regex_eval)

lemma nested_textE: "js_match textE nestedLoopPattern = None"
  by (simp add: nestedLoopPattern_def textE_def regex_eval)

lemma eval_textE: "js_test evalPattern textE = False"
  by (simp add: evalPattern_def textE_def regex_eval)

lemma length_textE: "length textE = 97"
  by (simp add: textE_def js_def)

lemma fileDetail_E: "fileDetail uriE docE = fileE"
proof -
  have "basename (js ''/w/keys.js'') = js ''keys.js''" by code_simp
  moreover have "replace (extname (js ''/w/keys.js'')) CHAR_DOT [] = js ''js''" by code_simp
  ultimately show ?thesis by (simp add: fileDetail_def fileE_def length_textE uriE_def docE_def)
qed

lemma secPatterns_nth: "secPatterns = [secPatterns ! 0, secPatterns ! 1, secPatterns ! 2]"
  by (simp add: secPatterns_def)

lemma progressPct_1_1: "progressPct (Suc 0) (Suc 0) = 85"
  by code_simp

lemma opens_hostE: "list_all2 (opens hostE) [uriE] [docE]"
  by (simp add: opens_def hostE_def workspace_host_def uriE_def)

lemma events_hostE:
  "events hostE = [AnalysisStarted, Progress 85, Progress 100, AnalysisResult reportE]"
proof -
  have rel: "asRelativePath hostE uriE = js ''keys.js''"
    by (simp add: hostE_def workspace_host_def uriE_def js_def)
  have "secretFindings hostE uriE docE =
      [\<lparr>si_file = js ''keys.js'', si_line = 0,
        si_match = take 40 (js ''TOKEN=\"aaaaaaaa1\"'') @ [ellipsis]\<rparr>,
       \<lparr>si_file = js ''keys.js'', si_line = 0,
        si_match = take 40 (js ''sk-0123456789abcdefghij0123456789abcdefghij'') @ [ellipsis]\<rparr>]"
    by (subst secretFindings_eq, subst secPatterns_nth) (simp add: secrets_textE rel docE_def)
  then have sec: "secretFindings hostE uriE docE = data_securityIssues reportE"
    by (simp add: reportE_def js_def)
  have perf: "performanceFindings hostE uriE docE = []"
    by (simp add: performanceFindings_eq nested_textE eval_textE docE_def)
  have "view hostE" "workspaceName_of (workspaceFolders hostE) = Inr (js ''w'')"
    "findFiles hostE includeGlob excludeGlob = Inr [uriE]"
    by (simp_all add: hostE_def workspace_host_def workspaceName_of_def uriE_def glob_eval)
  moreover have "toLocaleTimeString hostE = js ''12:00:00''"
    by (simp add: hostE_def workspace_host_def)
  moreover have "lineCount docE = 1"
    by (simp add: docE_def)
  ultimately show ?thesis
    using events_scanned [OF _ _ _ opens_hostE, of "js ''w''"]
    by (simp add: progressPct_1_1 analysisResult_def scanned_def fileDetail_E sec perf
        healthScore_def deductions_def reportE_def fileE_def)
qed

lemma results_scanned:
  assumes "view h" and "workspaceName_of (workspaceFolders h) = Inr w"
    and "findFiles h includeGlob excludeGlob = Inr files" and "list_all2 (opens h) files docs"
  shows "results h = [analysisResult h w files (scanned h files docs)]"
  using events_scanned [OF assms]
  by (simp add: results_def reports_append reports_Progress)

lemma nested_textC: "js_match textC nestedLoopPattern = Some [js ''for (i=0;i<n;i++) { for ('']"
  by (simp add: nestedLoopPattern_def textC_def regex_eval)

lemma secrets_textC:
  "js_match textC (secPatterns ! 0) = None" "js_match textC (secPatterns ! Suc 0) = None"
  "js_match textC (secPatterns ! 2) = None"
  by (simp_all add: secPatterns_def textC_def regex_eval)

lemma eval_textC: "js_test evalPattern textC = False"
  by (simp add: evalPattern_def textC_def regex_eval)

lemma length_textC: "length textC = 42"
  by (simp add: textC_def js_def)

lemma fileDetail_C: "fileDetail uriC docC = fileC"
proof -
  have "basename (js ''/w/loops.js'') = js ''loops.js''" by code_simp
  moreover have "replace (extname (js ''/w/loops.js'')) CHAR_DOT [] = js ''js''" by code_simp
  ultimately show ?thesis by (simp add: fileDetail_def fileC_def length_textC uriC_def docC_def)
qed

lemma opens_hostC: "list_all2 (opens hostC) [uriC] [docC]"
  by (simp add: opens_def hostC_def workspace_host_def uriC_def)

lemma hyps_hostC:
  "view hostC" "workspaceName_of (workspaceFolders hostC) = Inr (js ''w'')"
  "findFiles hostC includeGlob excludeGlob = Inr [uriC]"
  by (simp_all add: hostC_def workspace_host_def workspaceName_of_def uriC_def glob_eval)

lemma events_hostC:
  "events hostC = [AnalysisStarted, Progress 85, Progress 100, AnalysisResult reportC]"
proof -
  have rel: "asRelativePath hostC uriC = js ''loops.js''"
    by (simp add: hostC_def workspace_host_def uriC_def js_def)
  have sec: "secretFindings hostC uriC docC = []"
    by (subst secretFindings_eq, subst secPatterns_nth) (simp add: secrets_textC docC_def)
  have perf: "performanceFindings hostC uriC docC =
      [\<lparr>pi_file = js ''loops.js'', pi_count = 1, pi_type = js ''Nested Loops''\<rparr>]"
    by (simp add: performanceFindings_eq nested_textC eval_textC docC_def rel)
  have "toLocaleTimeString hostC = js ''12:00:00''"
    by (simp add: hostC_def workspace_host_def)
  moreover have "lineCount docC = 1"
    by (simp add: docC_def)
  ultimately show ?thesis
    using events_scanned [OF hyps_hostC opens_hostC]
    by (simp add: progressPct_1_1 analysisResult_def scanned_def fileDetail_C sec perf
        healthScore_def deductions_def reportC_def fileC_def)
qed

lemma nested_textN:
  "js_match textN nestedLoopPattern = Some [js ''for(;;){for('', js ''for(;;){for('']"
  by (simp add: nestedLoopPattern_def textN_def regex_eval)

lemma eval_textN: "js_test evalPattern textN = True"
  by (simp add: evalPattern_def textN_def regex_eval)

lemma opens_hostN: "list_all2 (opens hostN) [uriN] [docN]"
  by (simp add: opens_def hostN_def workspace_host_def uriN_def)

lemma hyps_hostN:
  "view hostN" "workspaceName_of (workspaceFolders hostN) = Inr (js ''w'')"
  "findFiles hostN includeGlob excludeGlob = Inr [uriN]"
  by (simp_all add: hostN_def workspace_host_def workspaceName_of_def uriN_def glob_eval)

lemma nested_pins:
  "js_match (js ''for (i=0;i<n;i++) { for (j=0;j<n;j++) {} }'') nestedLoopPattern =
     Some [js ''for (i=0;i<n;i++) { for ('']"
  "js_match (js ''for(;;){for(;;){}} for(;;){for(;;){}}'') nestedLoopPattern =
     Some [js ''for(;;){for('', js ''for(;;){for('']"
  "js_match (js ''for(a){for(b){for(c){}}}'') nestedLoopPattern = Some [js ''for(a){for(b){for('']"
  "js_match (js ''for(a){for(b) for(c) }'') nestedLoopPattern = Some [js ''for(a){for(b) for('']"
  "js_match (js ''for(a){ for(1) } x){ for(2) }'') nestedLoopPattern = Some [js ''for(a){ for('']"
  "js_match (js ''for (a) { b } for (c) { d }'') nestedLoopPattern = None"
  "js_match [] nestedLoopPattern = None"
  by (simp_all add: nestedLoopPattern_def regex_eval)

lemma nested_line_terminators:
  "list_all (\<lambda>c. js_match (js ''for(a'' @ c # js ''){for('') nestedLoopPattern = None)
     [0x0A, 0x0D, 0x2028, 0x2029]"
  "list_all (\<lambda>c. js_match (js ''for(a'' @ c # js ''){for('') nestedLoopPattern =
       Some [js ''for(a'' @ c # js ''){for('']) [0x09, 0x0B, 0x0C, 0x0E, 0x85, 0x2027, 0x202A]"
  "list_all (\<lambda>c. js_match (js ''for(a){'' @ c # js ''for('') nestedLoopPattern =
       Some [js ''for(a){'' @ c # js ''for('']) [0x0A, 0x0D, 0x2028, 0x2029]"
  by (simp_all add: nestedLoopPattern_def regex_eval)

lemma nested_white_space:
  "list_all (\<lambda>c. js_match (js ''for'' @ c # js ''(a)'' @ c # js ''{for'' @ c # js ''('') nestedLoopPattern =
       Some [js ''for'' @ c # js ''(a)'' @ c # js ''{for'' @ c # js ''(''])
     [0x09, 0x0A, 0x0B, 0x0C, 0x0D, 0x20, 0xA0, 0x1680, 0x2000, 0x2005, 0x200A, 0x2028, 0x2029,
      0x202F, 0x205F, 0x3000, 0xFEFF]"
  "list_all (\<lambda>c. js_match (js ''for'' @ c # js ''(a){for('') nestedLoopPattern = None)
     [0x08, 0x0E, 0x1F, 0x21, 0x85, 0x9F, 0xA1, 0x167F, 0x1681, 0x180E, 0x1FFF, 0x200B, 0x2027,
      0x202A, 0x202E, 0x2030, 0x205E, 0x2060, 0x2FFF, 0x3001, 0xFEFE, 0xFFFF]"
  by (simp_all add: nestedLoopPattern_def regex_eval)

lemma eval_pins:
  "js_test evalPattern (js ''eval(x)'')" "js_test evalPattern (js ''a = eval  (x)'')"
  "js_test evalPattern (js ''w.eval(x)'')"
  "\<not> js_test evalPattern (js ''medieval(x)'')" "\<not> js_test evalPattern (js ''_eval(x)'')"
  "\<not> js_test evalPattern (js ''eval x'')" "\<not> js_test evalPattern (js ''evaluate(x)'')"
  "list_all (\<lambda>c. \<not> js_test evalPattern (c # js ''eval(x)''))
     [0x30, 0x39, 0x41, 0x5A, 0x5F, 0x61, 0x7A]"
  "list_all (\<lambda>c. js_test evalPattern (c # js ''eval(x)''))
     [0x2F, 0x3A, 0x40, 0x5B, 0x5E, 0x60, 0x7B]"
  by (simp_all add: evalPattern_def regex_eval)

lemma match_g_line_feeds:
  assumes "\<And>p. ends r p [] = []" and "\<And>p s. ends r p (0x0A # s) = []"
  shows "match_g r p 0 (replicate n 0x0A) = []"
  by (induction n arbitrary: p) (simp_all add: assms)

lemma test_from_line_feeds:
  assumes "\<And>p. ends r p [] = []" and "\<And>p s. ends r p (0x0A # s) = []"
  shows "test_from r p (replicate n 0x0A) = False"
  by (induction n arbitrary: p) (simp_all add: assms)

lemma secrets_textB:
  "js_match textB (secPatterns ! 0) = None" "js_match textB (secPatterns ! Suc 0) = None"
  "js_match textB (secPatterns ! 2) = None"
  unfolding js_match_def textB_def
  by (subst match_g_line_feeds; simp add: secPatterns_def regex_eval)+

lemma nested_textB: "js_match textB nestedLoopPattern = None"
  unfolding js_match_def textB_def
  by (subst match_g_line_feeds; simp add: nestedLoopPattern_def regex_eval)

lemma eval_textB: "js_test evalPattern textB = False"
  unfolding js_test_def textB_def
  by (subst test_from_line_feeds; simp add: evalPattern_def regex_eval)

lemma fileDetail_B: "fileDetail uriB docB = fileB"
proof -
  have "basename (js ''/w/big.ts'') = js ''big.ts''" by code_simp
  moreover have "replace (extname (js ''/w/big.ts'')) CHAR_DOT [] = js ''ts''" by code_simp
  ultimately show ?thesis by (simp add: fileDetail_def fileB_def textB_def uriB_def docB_def)
qed

lemma opens_hostB: "list_all2 (opens hostB) [uriB] [docB]"
  by (simp add: opens_def hostB_def workspace_host_def uriB_def)

lemma hyps_hostB:
  "view hostB" "workspaceName_of (workspaceFolders hostB) = Inr (js ''w'')"
  "findFiles hostB includeGlob excludeGlob = Inr [uriB]"
  by (simp_all add: hostB_def workspace_host_def workspaceName_of_def uriB_def glob_eval)

lemma events_hostB:
  "events hostB = [AnalysisStarted, Progress 85, Progress 100, AnalysisResult reportB]"
proof -
  have sec: "secretFindings hostB uriB docB = []"
    by (subst secretFindings_eq, subst secPatterns_nth) (simp add: secrets_textB docB_def)
  have perf: "performanceFindings hostB uriB docB = []"
    by (simp add: performanceFindings_eq nested_textB eval_textB docB_def)
  have "toLocaleTimeString hostB = js ''12:00:00''"
    by (simp add: hostB_def workspace_host_def)
  moreover have "lineCount docB = 501"
    by (simp add: docB_def)
  ultimately show ?thesis
    using events_scanned [OF hyps_hostB opens_hostB]
    by (simp add: progressPct_1_1 analysisResult_def scanned_def fileDetail_B sec perf
        healthScore_def deductions_def reportB_def fileB_def)
qed

lemma results_files:
  assumes "r \<in> set (results h)"
  shows "\<exists>w files docs. view h \<and> workspaceName_of (workspaceFolders h) = Inr w \<and>
           findFiles h includeGlob excludeGlob = Inr files \<and> list_all2 (opens h) files docs \<and>
           r = analysisResult h w files (scanned h files docs)"
proof -
  from results_cases [OF assms] obtain w files docs where
    hyps: "view h" "workspaceName_of (workspaceFolders h) = Inr w" "findFiles h includeGlob excludeGlob = Inr files"
      "list_all2 (opens h) files docs"
    by blast
  have "r = analysisResult h w files (scanned h files docs)"
    using results_scanned [OF hyps] assms by simp
  with hyps show ?thesis by blast
qed

subsection \<open>The extension returned by \<^verbatim>\<open>path.extname\<close>\<close>

lemma ext_inv_post: "ext_inv path i v \<Longrightarrow> ext_post path v"
  by (auto simp: ext_inv_def ext_post_def)

lemma ext_post_startPart: "ext_post path v \<Longrightarrow> ext_post path (v\<lparr>startPart := k\<rparr>)"
  by (simp add: ext_post_def)

lemma slash_not_dot: "CHAR_FORWARD_SLASH \<noteq> CHAR_DOT"
  by (simp add: CHAR_FORWARD_SLASH_def CHAR_DOT_def)

lemma ext_inv_slash:
  assumes "ext_inv path (Suc i) v" and "path ! i = CHAR_FORWARD_SLASH"
  shows "ext_inv path i v"
proof -
  have "path ! j \<noteq> CHAR_DOT" if "i \<le> j" "int j < end' v" "startDot v = - 1" for j
  proof (cases "j = i")
    case True
    then show ?thesis using assms(2) slash_not_dot by simp
  next
    case False
    then have "Suc i \<le> j" using that(1) by simp
    then show ?thesis using assms(1) that(2,3) by (simp add: ext_inv_def)
  qed
  then show ?thesis
    using assms(1) by (auto simp: ext_inv_def)
qed

lemma ext_inv_step:
  assumes "ext_inv path (Suc i) v" and "path ! i \<noteq> CHAR_FORWARD_SLASH" and "i < length path"
  shows "ext_inv path i
    (let code = path ! i;
         v1 = (if end' v = - 1 then v\<lparr>matchedSlash := False, end' := int i + 1\<rparr> else v)
     in if code = CHAR_DOT then
          (if startDot v1 = - 1 then v1\<lparr>startDot := int i\<rparr>
           else if preDotState v1 \<noteq> 1 then v1\<lparr>preDotState := 1\<rparr>
           else v1)
        else if startDot v1 \<noteq> - 1 then v1\<lparr>preDotState := - 1\<rparr>
        else v1)"
proof -
  have split: "j = i \<or> Suc i \<le> j" if "i \<le> j" for j
    using that by auto
  show ?thesis
  proof (cases "end' v = - 1")
    case True
    then have "startDot v = - 1" using assms(1) by (simp add: ext_inv_def)
    with True show ?thesis
      using assms(3) by (auto simp: ext_inv_def Let_def)
  next
    case False
    show ?thesis
    proof (cases "startDot v = - 1")
      case True
      with False show ?thesis
        using assms(1) by (auto simp: ext_inv_def Let_def dest: split)
    next
      case sd: False
      with False show ?thesis
        using assms(1) by (auto simp: ext_inv_def Let_def)
    qed
  qed
qed

lemma extname_loop_post:
  "ext_inv path i v \<Longrightarrow> i \<le> length path \<Longrightarrow> ext_post path (extname_loop path i v)"
proof (induction i arbitrary: v)
  case 0
  then show ?case by (simp add: ext_inv_post)
next
  case (Suc i)
  show ?case
  proof (cases "path ! i = CHAR_FORWARD_SLASH")
    case True
    show ?thesis
    proof (cases "matchedSlash v")
      case True
      with \<open>path ! i = CHAR_FORWARD_SLASH\<close> show ?thesis
        using Suc.IH [OF ext_inv_slash [OF Suc.prems(1)]] Suc.prems(2) by simp
    next
      case False
      with True show ?thesis
        using ext_post_startPart [OF ext_inv_post [OF Suc.prems(1)]] by simp
    qed
  next
    case False
    have "i < length path" using Suc.prems(2) by simp
    from Suc.IH [OF ext_inv_step [OF Suc.prems(1) False this]] Suc.prems(2) False
    show ?thesis by (simp add: Let_def)
  qed
qed


lemma slice_shape:
  assumes "a < b" and "b \<le> length p" and "p ! a = c"
    and "\<And>j. a < j \<Longrightarrow> j < b \<Longrightarrow> p ! j \<noteq> c"
  shows "\<exists>r. take (b - a) (drop a p) = c # r \<and> c \<notin> set r \<and>
           (\<exists>pre post. p = pre @ c # r @ post)"
proof -
  let ?r = "take (b - Suc a) (drop (Suc a) p)"
  have a: "a < length p" using assms(1,2) by simp
  have d: "drop a p = c # drop (Suc a) p"
    using Cons_nth_drop_Suc [OF a] assms(3) by simp
  have "b - a = Suc (b - Suc a)" using assms(1) by simp
  then have t: "take (b - a) (drop a p) = c # ?r"
    by (simp add: d)
  have "c \<notin> set ?r"
  proof
    assume "c \<in> set ?r"
    then obtain k where k: "k < length ?r" and "?r ! k = c"
      by (auto simp: in_set_conv_nth)
    then have "p ! (Suc a + k) = c" using assms(2) by simp
    moreover have "Suc a + k < b" using k assms(2) by simp
    ultimately show False using assms(4) [of "Suc a + k"] by simp
  qed
  moreover have "p = take a p @ c # ?r @ drop b p"
  proof -
    have "drop a p = take (b - a) (drop a p) @ drop (b - a) (drop a p)"
      by (rule append_take_drop_id [symmetric])
    also have "drop (b - a) (drop a p) = drop b p"
      using assms(1) by simp
    finally have "drop a p = c # ?r @ drop b p" using t by simp
    then show ?thesis
      using append_take_drop_id [of a p] by simp
  qed
  ultimately show ?thesis using t by blast
qed

lemma extname_shape:
  "extname p = [] \<or>
   (\<exists>r. extname p = CHAR_DOT # r \<and> CHAR_DOT \<notin> set r \<and>
      (\<exists>pre post. p = pre @ CHAR_DOT # r @ post))"
proof -
  let ?v = "extname_loop p (length p)
              \<lparr>startDot = - 1, startPart = 0, end' = - 1, matchedSlash = True, preDotState = 0\<rparr>"
  have "ext_inv p (length p)
          \<lparr>startDot = - 1, startPart = 0, end' = - 1, matchedSlash = True, preDotState = 0\<rparr>"
    by (simp add: ext_inv_def)
  then have post: "ext_post p ?v"
    by (rule extname_loop_post) simp
  show ?thesis
  proof (cases "startDot ?v = - 1 \<or> end' ?v = - 1")
    case True
    then have "extname p = []" by (auto simp: extname_def Let_def)
    then show ?thesis ..
  next
    case False
    with post have sd: "0 \<le> startDot ?v" "startDot ?v < end' ?v" "end' ?v \<le> int (length p)"
      "p ! nat (startDot ?v) = CHAR_DOT"
      and nodot: "\<And>j. startDot ?v < int j \<Longrightarrow> int j < end' ?v \<Longrightarrow> p ! j \<noteq> CHAR_DOT"
      by (auto simp: ext_post_def)
    have "nat (end' ?v - startDot ?v) = nat (end' ?v) - nat (startDot ?v)"
      using sd(1,2) by simp
    then have sl: "slice p (startDot ?v) (end' ?v) =
        take (nat (end' ?v) - nat (startDot ?v)) (drop (nat (startDot ?v)) p)"
      by (simp add: slice_def)
    have "\<exists>r. take (nat (end' ?v) - nat (startDot ?v)) (drop (nat (startDot ?v)) p) = CHAR_DOT # r \<and>
        CHAR_DOT \<notin> set r \<and> (\<exists>pre post. p = pre @ CHAR_DOT # r @ post)"
    proof (rule slice_shape)
      show "nat (startDot ?v) < nat (end' ?v)" using sd(1,2) by simp
      show "nat (end' ?v) \<le> length p" using sd(3) by simp
      show "p ! nat (startDot ?v) = CHAR_DOT" by (rule sd(4))
      show "p ! j \<noteq> CHAR_DOT" if "nat (startDot ?v) < j" "j < nat (end' ?v)" for j
        using that sd(1) by (intro nodot) simp_all
    qed
    then have "\<exists>r. slice p (startDot ?v) (end' ?v) = CHAR_DOT # r \<and>
        CHAR_DOT \<notin> set r \<and> (\<exists>pre post. p = pre @ CHAR_DOT # r @ post)"
      by (simp only: sl)
    moreover have "extname p = [] \<or> extname p = slice p (startDot ?v) (end' ?v)"
      by (simp add: extname_def Let_def)
    ultimately show ?thesis by metis
  qed
qed

lemma ext_shape:
  "CHAR_DOT \<notin> set (replace (extname p) CHAR_DOT []) \<and>
   replace (extname p) CHAR_DOT [] = tl (extname p) \<and>
   (replace (extname p) CHAR_DOT [] \<noteq> [] \<longrightarrow>
      (\<exists>pre post. p = pre @ CHAR_DOT # replace (extname p) CHAR_DOT [] @ post))"
proof (cases "extname p = []")
  case True
  then show ?thesis by simp
next
  case False
  with extname_shape [of p] obtain r pre post where
    "extname p = CHAR_DOT # r" "CHAR_DOT \<notin> set r" "p = pre @ CHAR_DOT # r @ post"
    by blast
  then show ?thesis by auto
qed


subsection \<open>The files that the search selects\<close>

lemma seg_match_Star:
  "seg_match (Star # items) s \<Longrightarrow> \<exists>n\<le>length s. seg_match items (drop n s)"
proof (induction s)
  case Nil
  then show ?case by simp
next
  case (Cons c s)
  from Cons.prems have "seg_match items (c # s) \<or> seg_match (Star # items) s" by simp
  then show ?case
  proof
    assume "seg_match items (c # s)"
    then have "seg_match items (drop 0 (c # s))" by simp
    then show ?thesis by blast
  next
    assume "seg_match (Star # items) s"
    with Cons.IH obtain n where "n \<le> length s" "seg_match items (drop n s)" by blast
    then have "Suc n \<le> length (c # s)" "seg_match items (drop (Suc n) (c # s))" by simp_all
    then show ?thesis by blast
  qed
qed

lemma seg_match_Braces: "seg_match [Braces ls] s \<Longrightarrow> s \<in> set ls"
proof (induction ls)
  case Nil
  then show ?case by simp
next
  case (Cons l ls)
  from Cons.prems have "(take (length l) s = l \<and> drop (length l) s = []) \<or> seg_match [Braces ls] s"
    by simp
  then show ?case
  proof
    assume a: "take (length l) s = l \<and> drop (length l) s = []"
    then have "s = l" using append_take_drop_id [of "length l" s] by simp
    then show ?thesis by simp
  next
    assume "seg_match [Braces ls] s"
    then show ?thesis using Cons.IH by simp
  qed
qed

lemma seg_match_include:
  assumes "seg_match [Star, Chars [CHAR_DOT], Braces ls] s"
  shows "\<exists>x e. s = x @ CHAR_DOT # e \<and> e \<in> set ls"
proof -
  from seg_match_Star [OF assms] obtain n where
    n: "seg_match [Chars [CHAR_DOT], Braces ls] (drop n s)" by blast
  then have t: "take 1 (drop n s) = [CHAR_DOT]" and b: "seg_match [Braces ls] (drop 1 (drop n s))"
    by simp_all
  from b have "drop 1 (drop n s) \<in> set ls" by (rule seg_match_Braces)
  moreover have "drop n s = CHAR_DOT # drop 1 (drop n s)"
    using t append_take_drop_id [of 1 "drop n s"] by simp
  then have "s = take n s @ CHAR_DOT # drop 1 (drop n s)"
    using append_take_drop_id [of n s] by simp
  ultimately show ?thesis by blast
qed

lemma path_match_last:
  "path_match [GlobStar, Segment items] segs \<Longrightarrow> segs \<noteq> [] \<and> seg_match items (last segs)"
proof (induction segs)
  case Nil
  then show ?case by simp
next
  case (Cons s segs)
  from Cons.prems have "(seg_match items s \<and> segs = []) \<or> path_match [GlobStar, Segment items] segs"
    by simp
  then show ?case using Cons.IH by auto
qed

lemma segments_last:
  "segments p \<noteq> [] \<and> CHAR_FORWARD_SLASH \<notin> set (last (segments p)) \<and>
   (\<exists>pre. p = pre @ last (segments p) \<and> (pre = [] \<or> last pre = CHAR_FORWARD_SLASH)) \<and>
   (length (segments p) = 1 \<longrightarrow> p = last (segments p)) \<and>
   (1 < length (segments p) \<longrightarrow> CHAR_FORWARD_SLASH \<in> set p)"
proof (induction p)
  case Nil
  then show ?case by simp
next
  case (Cons c p)
  then obtain pre where ih: "segments p \<noteq> []" "CHAR_FORWARD_SLASH \<notin> set (last (segments p))"
    "p = pre @ last (segments p)" "pre = [] \<or> last pre = CHAR_FORWARD_SLASH"
    "length (segments p) = 1 \<longrightarrow> p = last (segments p)"
    "1 < length (segments p) \<longrightarrow> CHAR_FORWARD_SLASH \<in> set p"
    by blast
  from ih(1) obtain seg rest where sr: "segments p = seg # rest" by (cases "segments p") auto
  show ?case
  proof (cases "c = CHAR_FORWARD_SLASH")
    case True
    then have l: "last (segments (c # p)) = last (segments p)" "1 < length (segments (c # p))"
      using ih(1) sr by simp_all
    have "c # p = (c # pre) @ last (segments p)" using ih(3) by simp
    moreover have "last (c # pre) = CHAR_FORWARD_SLASH" using ih(4) True by auto
    ultimately have "\<exists>pre. c # p = pre @ last (segments (c # p)) \<and>
        (pre = [] \<or> last pre = CHAR_FORWARD_SLASH)"
      unfolding l(1) by blast
    then show ?thesis using ih(2) True l by simp
  next
    case False
    show ?thesis
    proof (cases rest)
      case Nil
      then have l: "segments (c # p) = [c # seg]" "p = seg"
        using sr False ih(5) by simp_all
      have "CHAR_FORWARD_SLASH \<notin> set seg" using ih(2) sr Nil by simp
      then show ?thesis using l False by simp
    next
      case (Cons a list)
      then have l: "last (segments (c # p)) = last (segments p)"
        "length (segments (c # p)) = length (segments p)" "1 < length (segments p)"
        using sr False by simp_all
      then have "CHAR_FORWARD_SLASH \<in> set p" using ih(6) by simp
      then have "pre \<noteq> []" using ih(2,3) by (metis append_Nil)
      then have "last (c # pre) = CHAR_FORWARD_SLASH" using ih(4) by simp
      moreover have "c # p = (c # pre) @ last (segments p)" using ih(3) by simp
      ultimately have "\<exists>pre. c # p = pre @ last (segments (c # p)) \<and>
          (pre = [] \<or> last pre = CHAR_FORWARD_SLASH)"
        unfolding l(1) by blast
      moreover have "segments (c # p) \<noteq> []" using sr False by simp
      ultimately show ?thesis using ih(2) l \<open>CHAR_FORWARD_SLASH \<in> set p\<close> by simp
    qed
  qed
qed

lemma extname_loop_plain:
  assumes "\<And>j. n \<le> j \<Longrightarrow> j < n + k \<Longrightarrow> path ! j \<noteq> CHAR_FORWARD_SLASH \<and> path ! j \<noteq> CHAR_DOT"
    and "end' v \<noteq> - 1" and "startDot v = - 1"
  shows "extname_loop path (n + k) v = extname_loop path n v"
  using assms
proof (induction k)
  case 0
  then show ?case by simp
next
  case (Suc k)
  have "path ! (n + k) \<noteq> CHAR_FORWARD_SLASH \<and> path ! (n + k) \<noteq> CHAR_DOT"
    using Suc.prems(1) [of "n + k"] by simp
  then have "extname_loop path (n + Suc k) v = extname_loop path (n + k) v"
    using Suc.prems(2,3) by (simp add: Let_def)
  also have "\<dots> = extname_loop path n v"
    using Suc.prems by (intro Suc.IH) simp_all
  finally show ?case .
qed

lemma extname_loop_name:
  assumes "\<And>j. n \<le> j \<Longrightarrow> j < n + k \<Longrightarrow> path ! j \<noteq> CHAR_FORWARD_SLASH"
    and "end' v \<noteq> - 1" and "startDot v \<noteq> - 1"
  shows "\<exists>c. extname_loop path (n + k) v = extname_loop path n (v\<lparr>preDotState := c\<rparr>) \<and>
           (k = 0 \<longrightarrow> c = preDotState v) \<and> (0 < k \<longrightarrow> c \<noteq> 0)"
  using assms
proof (induction k arbitrary: v)
  case 0
  then show ?case by simp
next
  case (Suc k)
  define c1 :: int where "c1 = (if path ! (n + k) = CHAR_DOT then 1 else - 1)"
  have ns: "path ! (n + k) \<noteq> CHAR_FORWARD_SLASH"
    using Suc.prems(1) [of "n + k"] by simp
  have step: "extname_loop path (n + Suc k) v = extname_loop path (n + k) (v\<lparr>preDotState := c1\<rparr>)"
  proof (cases "path ! (n + k) = CHAR_DOT \<and> preDotState v = 1")
    case True
    then have "v\<lparr>preDotState := c1\<rparr> = v"
      by (cases v) (simp add: c1_def)
    moreover have "extname_loop path (n + Suc k) v = extname_loop path (n + k) v"
      using True ns Suc.prems(2,3) by (simp add: Let_def)
    ultimately show ?thesis by simp
  next
    case False
    then show ?thesis
      using ns Suc.prems(2,3) by (auto simp: Let_def c1_def)
  qed
  have "\<exists>c. extname_loop path (n + k) (v\<lparr>preDotState := c1\<rparr>) =
          extname_loop path n (v\<lparr>preDotState := c1\<rparr>\<lparr>preDotState := c\<rparr>) \<and>
          (k = 0 \<longrightarrow> c = preDotState (v\<lparr>preDotState := c1\<rparr>)) \<and> (0 < k \<longrightarrow> c \<noteq> 0)"
    using Suc.prems by (intro Suc.IH) simp_all
  then obtain c where c: "extname_loop path (n + k) (v\<lparr>preDotState := c1\<rparr>) =
      extname_loop path n (v\<lparr>preDotState := c\<rparr>)" "k = 0 \<longrightarrow> c = c1" "0 < k \<longrightarrow> c \<noteq> 0"
    by auto
  have "c \<noteq> 0" using c(2,3) by (cases k) (simp_all add: c1_def)
  then show ?case using step c(1) by auto
qed

lemma extname_of_name:
  assumes x: "CHAR_FORWARD_SLASH \<notin> set x"
    and e: "e \<noteq> []" "CHAR_FORWARD_SLASH \<notin> set e" "CHAR_DOT \<notin> set e"
  shows "extname (dir @ CHAR_FORWARD_SLASH # x @ CHAR_DOT # e) = (if x = [] then [] else CHAR_DOT # e)"
proof -
  define path where "path = dir @ CHAR_FORWARD_SLASH # x @ CHAR_DOT # e"
  define a where "a = length dir"
  define d where "d = a + 1 + length x"
  define v0 where "v0 = \<lparr>startDot = - 1, startPart = 0, end' = - 1, matchedSlash = True,
                 preDotState = 0\<rparr>"
  have len: "length path = d + 1 + length e"
    by (simp add: path_def d_def a_def)
  have at_a: "path ! a = CHAR_FORWARD_SLASH"
    by (simp add: path_def a_def nth_append)
  have at_x: "path ! j \<noteq> CHAR_FORWARD_SLASH" if "a + 1 \<le> j" "j < a + 1 + length x" for j
  proof -
    have i: "j - (a + 1) < length x" "length (dir @ [CHAR_FORWARD_SLASH]) = a + 1"
      using that by (simp_all add: a_def)
    have "path = (dir @ [CHAR_FORWARD_SLASH]) @ x @ CHAR_DOT # e"
      by (simp add: path_def)
    then have "path ! j = (x @ CHAR_DOT # e) ! (j - (a + 1))"
      using that(1) i(2) by (metis leD nth_append)
    then have "path ! j = x ! (j - (a + 1))"
      using i(1) by (simp add: nth_append)
    moreover have "x ! (j - (a + 1)) \<in> set x" using i(1) by simp
    ultimately show ?thesis using x by metis
  qed
  have pd: "path = (dir @ CHAR_FORWARD_SLASH # x) @ CHAR_DOT # e" "length (dir @ CHAR_FORWARD_SLASH # x) = d"
    by (simp_all add: path_def d_def a_def)
  have at_d: "path ! d = CHAR_DOT"
    using pd by (metis nth_append_length)
  have at_e: "path ! j \<noteq> CHAR_FORWARD_SLASH \<and> path ! j \<noteq> CHAR_DOT" if "d + 1 \<le> j" "j < d + 1 + length e" for j
  proof -
    have "path ! j = (CHAR_DOT # e) ! (j - d)"
      using that pd by (metis add_leD1 leD nth_append)
    then have "path ! j = e ! (j - (d + 1))"
      using that by (simp add: nth_Cons')
    moreover have "e ! (j - (d + 1)) \<in> set e" using that by simp
    ultimately show ?thesis using e by metis
  qed
  have dot_slash: "CHAR_DOT \<noteq> CHAR_FORWARD_SLASH"
    by (simp add: CHAR_DOT_def CHAR_FORWARD_SLASH_def)
  obtain k where k: "length e = Suc k" using e(1) by (cases e) auto
  define v1 where "v1 = v0\<lparr>matchedSlash := False, end' := int (length path)\<rparr>"
  have "extname_loop path (length path) v0 = extname_loop path (Suc (d + 1 + k)) v0"
    by (simp add: len k)
  also have "\<dots> = extname_loop path (d + 1 + k) v1"
    using at_e [of "d + 1 + k"] by (simp add: k Let_def v0_def v1_def len)
  also have "\<dots> = extname_loop path (d + 1) v1"
    using at_e by (intro extname_loop_plain) (simp_all add: v1_def v0_def k)
  also have "\<dots> = extname_loop path d (v1\<lparr>startDot := int d\<rparr>)"
    using at_d dot_slash by (simp add: Let_def v1_def v0_def)
  finally have s1: "extname_loop path (length path) v0 = extname_loop path d (v1\<lparr>startDot := int d\<rparr>)" .
  have "\<exists>c. extname_loop path (a + 1 + length x) (v1\<lparr>startDot := int d\<rparr>) =
          extname_loop path (a + 1) (v1\<lparr>startDot := int d\<rparr>\<lparr>preDotState := c\<rparr>) \<and>
          (length x = 0 \<longrightarrow> c = preDotState (v1\<lparr>startDot := int d\<rparr>)) \<and> (0 < length x \<longrightarrow> c \<noteq> 0)"
    using at_x by (intro extname_loop_name) (simp_all add: v1_def v0_def)
  then obtain c where c: "extname_loop path d (v1\<lparr>startDot := int d\<rparr>) =
      extname_loop path (Suc a) (v1\<lparr>startDot := int d, preDotState := c\<rparr>)"
      "x = [] \<longrightarrow> c = 0" "x \<noteq> [] \<longrightarrow> c \<noteq> 0"
    by (auto simp: d_def v1_def v0_def)
  have "extname_loop path (Suc a) (v1\<lparr>startDot := int d, preDotState := c\<rparr>) =
      v1\<lparr>startDot := int d, preDotState := c, startPart := int a + 1\<rparr>"
    using at_a by (simp add: Let_def v1_def v0_def)
  with s1 c(1) have fin: "extname_loop path (length path) v0 =
      v1\<lparr>startDot := int d, preDotState := c, startPart := int a + 1\<rparr>"
    by simp
  have "drop d path = CHAR_DOT # e"
    using pd by (metis append_eq_conv_conj)
  then have sl: "slice path (int d) (int (length path)) = CHAR_DOT # e"
    by (simp add: slice_def len)
  have "extname path = (if x = [] then [] else CHAR_DOT # e)"
    using c(2,3) k sl unfolding extname_def v0_def [symmetric] fin
    by (simp add: v1_def v0_def len)
  then show ?thesis by (simp add: path_def)
qed

lemma extensions_plain:
  assumes "e \<in> set extensions"
  shows "e \<noteq> []" "CHAR_FORWARD_SLASH \<notin> set e" "CHAR_DOT \<notin> set e" "lowercase e"
  using assms
  by (auto simp: extensions_def js_def ch_def CHAR_FORWARD_SLASH_def CHAR_DOT_def lowercase_def)

lemma selected_path:
  assumes "selected includeGlob excl entry"
  shows "\<exists>dir x e. fsPath (uri_of entry) = dir @ CHAR_FORWARD_SLASH # x @ CHAR_DOT # e \<and>
           CHAR_FORWARD_SLASH \<notin> set x \<and> e \<in> set extensions"
proof -
  define rel where "rel = snd entry"
  have "js ''.'' = [CHAR_DOT]"
    by (simp add: js_def ch_def CHAR_DOT_def)
  then have "path_match [GlobStar, Segment [Star, Chars [CHAR_DOT], Braces extensions]] (segments rel)"
    using assms by (simp add: selected_def glob_match_def includeGlob_def rel_def)
  then have "seg_match [Star, Chars [CHAR_DOT], Braces extensions] (last (segments rel))"
    using path_match_last by blast
  then obtain x e where xe: "last (segments rel) = x @ CHAR_DOT # e" "e \<in> set extensions"
    using seg_match_include by blast
  from segments_last [of rel] obtain pre where pre:
    "CHAR_FORWARD_SLASH \<notin> set (last (segments rel))" "rel = pre @ last (segments rel)"
    "pre = [] \<or> last pre = CHAR_FORWARD_SLASH"
    by blast
  have x: "CHAR_FORWARD_SLASH \<notin> set x" using pre(1) xe(1) by simp
  have "\<exists>dir. fst entry @ CHAR_FORWARD_SLASH # pre = dir @ [CHAR_FORWARD_SLASH]"
  proof (cases "pre = []")
    case True
    then show ?thesis by simp
  next
    case False
    then have "pre = butlast pre @ [CHAR_FORWARD_SLASH]"
      using pre(3) by (metis append_butlast_last_id)
    then have "fst entry @ CHAR_FORWARD_SLASH # pre =
        (fst entry @ CHAR_FORWARD_SLASH # butlast pre) @ [CHAR_FORWARD_SLASH]"
      by simp
    then show ?thesis by blast
  qed
  then obtain dir where "fst entry @ CHAR_FORWARD_SLASH # pre = dir @ [CHAR_FORWARD_SLASH]"
    by blast
  then have "fsPath (uri_of entry) = dir @ CHAR_FORWARD_SLASH # x @ CHAR_DOT # e"
    using pre(2) xe(1) by (simp add: uri_of_def rel_def [symmetric])
  with x xe(2) show ?thesis by blast
qed

lemma findFiles_ext:
  assumes "findFiles h includeGlob excl = Inr files" and "f \<in> set files"
  shows "replace (extname (fsPath f)) CHAR_DOT [] \<in> set ([] # extensions)"
proof -
  from assms obtain entries where "workspaceFiles h = Inr entries"
    "files = map uri_of (filter (selected includeGlob excl) entries)"
    by (auto simp: findFiles_def split: sum.splits)
  with assms(2) obtain entry where "f = uri_of entry" "selected includeGlob excl entry"
    by auto
  with selected_path obtain dir x e where
    p: "fsPath f = dir @ CHAR_FORWARD_SLASH # x @ CHAR_DOT # e"
      "CHAR_FORWARD_SLASH \<notin> set x" "e \<in> set extensions"
    by blast
  have "extname (fsPath f) = (if x = [] then [] else CHAR_DOT # e)"
    unfolding p(1) using p(2) extensions_plain(1-3) [OF p(3)] by (rule extname_of_name)
  then show ?thesis using p(3) by simp
qed

subsection \<open>Rounding to binary64 is monotone\<close>

lemma bit_length_bounds:
  "0 < n \<Longrightarrow> 2 ^ (bit_length n - 1) \<le> n \<and> n < 2 ^ bit_length n"
proof (induction n rule: bit_length.induct)
  case (1 n)
  show ?case
  proof (cases "n div 2 \<le> 0")
    case True
    then have "n = 1" using "1.prems" by linarith
    then show ?thesis by (simp add: bit_length.simps)
  next
    case False
    then have pos: "0 < n div 2" by simp
    from "1.IH" [OF _ pos] "1.prems"
    have ih: "2 ^ (bit_length (n div 2) - 1) \<le> n div 2" "n div 2 < 2 ^ bit_length (n div 2)"
      by simp_all
    have bl: "bit_length n = Suc (bit_length (n div 2))"
      using "1.prems" by (subst bit_length.simps) simp
    have "0 < bit_length (n div 2)"
      using pos by (subst bit_length.simps) simp
    then have "(2::int) ^ bit_length (n div 2) = 2 * 2 ^ (bit_length (n div 2) - 1)"
      by (cases "bit_length (n div 2)") simp_all
    then have "2 ^ bit_length (n div 2) \<le> n"
      using ih(1) by linarith
    moreover have "n < 2 * 2 ^ bit_length (n div 2)"
      using ih(2) by linarith
    ultimately show ?thesis by (simp add: bl)
  qed
qed

lemma binade_bounds:
  assumes "0 < x"
  shows "2 powi binade x \<le> x \<and> x < 2 powi (binade x + 1)"
proof -
  obtain p q where pq: "quotient_of x = (p, q)" by (cases "quotient_of x")
  then have q: "0 < q" by (rule quotient_of_denom_pos)
  have x: "x = of_int p / of_int q" using pq by (rule quotient_of_div)
  have p: "0 < p" using assms q by (simp add: x zero_less_divide_iff)
  define a b where "a = bit_length p" and "b = bit_length q"
  have pa: "2 ^ (a - 1) \<le> p" "p < 2 ^ a" and qb: "2 ^ (b - 1) \<le> q" "q < 2 ^ b"
    using bit_length_bounds [OF p] bit_length_bounds [OF q] by (simp_all add: a_def b_def)
  have a0: "0 < a" and b0: "0 < b"
    using p q by (simp_all add: a_def b_def bit_length.simps [of p] bit_length.simps [of q])
  define d where "d = int a - int b"
  have q': "(0::rat) < of_int q" using q by simp
  have upper: "x < 2 powi (d + 1)"
  proof -
    have "of_int p < (2::rat) ^ a" using pa(2) by (metis of_int_less_iff of_int_numeral of_int_power)
    moreover have "(2::rat) ^ (b - 1) \<le> of_int q" using qb(1) by (metis of_int_le_iff of_int_numeral of_int_power)
    ultimately have "of_int p * (2::rat) ^ (b - 1) < 2 ^ a * of_int q"
      using p by (intro mult_less_le_imp_less) simp_all
    then have "x < 2 ^ a / 2 ^ (b - 1)"
      using q' by (simp add: x field_simps)
    also have "\<dots> = 2 powi (int a - int (b - 1))"
      by (simp add: power_int_diff)
    also have "int a - int (b - 1) = d + 1" using b0 by (simp add: d_def)
    finally show ?thesis .
  qed
  have lower: "2 powi (d - 1) \<le> x"
  proof -
    have "(2::rat) ^ (a - 1) \<le> of_int p" using pa(1) by (metis of_int_le_iff of_int_numeral of_int_power)
    moreover have "of_int q \<le> (2::rat) ^ b" using qb(2) by (metis less_imp_le of_int_le_iff of_int_numeral of_int_power)
    ultimately have "(2::rat) ^ (a - 1) * of_int q \<le> of_int p * 2 ^ b"
      using q' p by (intro mult_mono) simp_all
    then have "2 ^ (a - 1) / 2 ^ b \<le> x"
      using q' by (simp add: x field_simps)
    moreover have "(2::rat) ^ (a - 1) / 2 ^ b = 2 powi (int (a - 1) - int b)"
      by (simp add: power_int_diff)
    moreover have "int (a - 1) - int b = d - 1" using a0 by (simp add: d_def)
    ultimately show ?thesis by simp
  qed
  have b: "binade x = (if 2 powi d \<le> x then d else d - 1)"
    by (simp add: binade_def pq a_def b_def d_def Let_def)
  show ?thesis
  proof (cases "2 powi d \<le> x")
    case True
    then show ?thesis using upper by (simp add: b)
  next
    case False
    then show ?thesis using lower by (simp add: b)
  qed
qed


lemma round_ties_even_of_int: "round_ties_even (of_int n) = n"
  by (simp add: round_ties_even_def)

lemma round_ties_even_cases:
  "round_ties_even x = \<lfloor>x\<rfloor> \<or> round_ties_even x = \<lfloor>x\<rfloor> + 1"
  by (simp add: round_ties_even_def Let_def)

lemma round_ties_even_mono:
  assumes "x \<le> y"
  shows "round_ties_even x \<le> round_ties_even y"
proof (cases "\<lfloor>x\<rfloor> = \<lfloor>y\<rfloor>")
  case True
  have "x - of_int \<lfloor>y\<rfloor> \<le> y - of_int \<lfloor>y\<rfloor>" using assms by simp
  then show ?thesis
    by (auto simp: round_ties_even_def Let_def True)
next
  case False
  then have "\<lfloor>x\<rfloor> + 1 \<le> \<lfloor>y\<rfloor>"
    using floor_mono [OF assms] by simp
  moreover have "round_ties_even x \<le> \<lfloor>x\<rfloor> + 1"
    using round_ties_even_cases [of x] by auto
  moreover have "\<lfloor>y\<rfloor> \<le> round_ties_even y"
    using round_ties_even_cases [of y] by auto
  ultimately show ?thesis by simp
qed

lemma binary64_positive:
  "0 < x \<Longrightarrow> binary64 x = of_int (round_ties_even (x / 2 powi (binade x - 52))) * 2 powi (binade x - 52)"
  by (simp add: binary64_def Let_def)

lemma binary64_bounds:
  assumes "0 < x"
  shows "2 powi binade x \<le> binary64 x \<and> binary64 x \<le> 2 powi (binade x + 1)"
proof -
  define e where "e = binade x"
  define u :: rat where "u = 2 powi (e - 52)"
  have u: "0 < u" by (simp add: u_def)
  have lo: "2 powi e = 2 ^ 52 * u" and hi: "2 powi (e + 1) = 2 ^ 53 * u"
    by (simp_all add: u_def power_int_diff power_int_add)
  from binade_bounds [OF assms] have "2 ^ 52 * u \<le> x" "x < 2 ^ 53 * u"
    by (simp_all add: e_def [symmetric] lo hi)
  then have "of_int (2 ^ 52) \<le> x / u" "x / u \<le> of_int (2 ^ 53)"
    using u by (simp_all add: field_simps)
  then have "2 ^ 52 \<le> round_ties_even (x / u)" "round_ties_even (x / u) \<le> 2 ^ 53"
    using round_ties_even_mono [of "of_int (2 ^ 52)" "x / u"]
      round_ties_even_mono [of "x / u" "of_int (2 ^ 53)"]
    by (simp_all only: round_ties_even_of_int)
  then have "(2::rat) ^ 52 \<le> of_int (round_ties_even (x / u))"
    "of_int (round_ties_even (x / u)) \<le> (2::rat) ^ 53"
    by (metis of_int_le_iff of_int_numeral of_int_power)+
  then have "2 ^ 52 * u \<le> of_int (round_ties_even (x / u)) * u"
    "of_int (round_ties_even (x / u)) * u \<le> 2 ^ 53 * u"
    using u by simp_all
  then show ?thesis
    using assms by (simp add: binary64_positive e_def [symmetric] u_def [symmetric] lo hi)
qed

lemma binary64_pos:
  assumes "0 < x"
  shows "0 < binary64 x"
proof -
  have "(0::rat) < 2 powi binade x" by simp
  also have "\<dots> \<le> binary64 x" using binary64_bounds [OF assms] by simp
  finally show ?thesis .
qed

lemma binade_mono:
  assumes "0 < x" and "x \<le> y"
  shows "binade x \<le> binade y"
proof -
  have "0 < y" using assms by simp
  from binade_bounds [OF assms(1)] binade_bounds [OF this] assms(2)
  have lt: "(2::rat) powi binade x < 2 powi (binade y + 1)" by simp
  have "binade x < binade y + 1"
  proof (rule ccontr)
    assume "\<not> binade x < binade y + 1"
    then have "(2::rat) powi (binade y + 1) \<le> 2 powi binade x"
      by (intro power_int_increasing) simp_all
    with lt show False by simp
  qed
  then show ?thesis by simp
qed

lemma binary64_mono:
  assumes "0 < x" and "x \<le> y"
  shows "binary64 x \<le> binary64 y"
proof -
  have y: "0 < y" using assms by simp
  show ?thesis
  proof (cases "binade x = binade y")
    case True
    define u :: rat where "u = 2 powi (binade y - 52)"
    have u: "0 < u" by (simp add: u_def)
    then have "x / u \<le> y / u" using assms(2) by (simp add: divide_right_mono)
    then have "round_ties_even (x / u) \<le> round_ties_even (y / u)"
      by (rule round_ties_even_mono)
    then have "of_int (round_ties_even (x / u)) * u \<le> of_int (round_ties_even (y / u)) * u"
      using u by simp
    then show ?thesis
      using assms(1) y by (simp add: binary64_positive True u_def [symmetric])
  next
    case False
    then have "binade x + 1 \<le> binade y"
      using binade_mono [OF assms] by simp
    then have "(2::rat) powi (binade x + 1) \<le> 2 powi binade y"
      by (simp add: power_int_increasing)
    then show ?thesis
      using binary64_bounds [OF assms(1)] binary64_bounds [OF y] by simp
  qed
qed

lemma binary64_1: "binary64 1 = 1"
  by code_simp

lemma binary64_85: "binary64 85 = 85"
  by code_simp


lemma floor_85_half: "\<lfloor>(85::rat) + 1 / 2\<rfloor> = 85"
  by (rule floor_unique) simp_all

lemma progressPct_mono:
  assumes "0 < p" and "p \<le> p'" and "0 < n"
  shows "progressPct p n \<le> progressPct p' n"
proof -
  have pos: "(0::rat) < of_nat p / of_nat n" using assms(1,3) by simp
  have "(of_nat p :: rat) / of_nat n \<le> of_nat p' / of_nat n"
    using assms(2,3) by (simp add: divide_right_mono)
  then have q: "js_div (of_nat p) (of_nat n) \<le> js_div (of_nat p') (of_nat n)"
    unfolding js_div_def using pos by (intro binary64_mono)
  have "0 < js_div (of_nat p) (of_nat n)"
    unfolding js_div_def using pos by (rule binary64_pos)
  then have "0 < js_div (of_nat p) (of_nat n) * 85" by simp
  moreover have "js_div (of_nat p) (of_nat n) * 85 \<le> js_div (of_nat p') (of_nat n) * 85"
    using q by simp
  ultimately have "js_mul (js_div (of_nat p) (of_nat n)) 85 \<le> js_mul (js_div (of_nat p') (of_nat n)) 85"
    unfolding js_mul_def by (rule binary64_mono)
  then show ?thesis
    by (simp add: progressPct_def Math_round_def floor_mono)
qed

lemma progressPct_le_85:
  assumes "0 < p" and "p \<le> n"
  shows "progressPct p n \<le> 85"
proof -
  have n: "0 < n" using assms by simp
  have pos: "(0::rat) < of_nat p / of_nat n" using assms(1) n by simp
  have "(of_nat p :: rat) / of_nat n \<le> 1" using assms(2) n by simp
  then have q: "js_div (of_nat p) (of_nat n) \<le> 1"
    unfolding js_div_def using binary64_mono [OF pos, of 1] by (simp add: binary64_1)
  have "0 < js_div (of_nat p) (of_nat n)"
    unfolding js_div_def using pos by (rule binary64_pos)
  then have "0 < js_div (of_nat p) (of_nat n) * 85" by simp
  moreover have "js_div (of_nat p) (of_nat n) * 85 \<le> 85" using q by simp
  ultimately have "js_mul (js_div (of_nat p) (of_nat n)) 85 \<le> 85"
    unfolding js_mul_def using binary64_mono [of "js_div (of_nat p) (of_nat n) * 85" 85]
    by (simp add: binary64_85)
  then have "js_mul (js_div (of_nat p) (of_nat n)) 85 + 1 / 2 \<le> 85 + 1 / 2" by simp
  then have "\<lfloor>js_mul (js_div (of_nat p) (of_nat n)) 85 + 1 / 2\<rfloor> \<le> \<lfloor>(85::rat) + 1 / 2\<rfloor>"
    by (rule floor_mono)
  also have "\<lfloor>(85::rat) + 1 / 2\<rfloor> = 85" by (rule floor_85_half)
  finally show ?thesis by (simp only: progressPct_def Math_round_def)
qed

lemma progressPct_all: "0 < n \<Longrightarrow> progressPct n n = 85"
  using floor_85_half
  by (simp add: progressPct_def js_div_def js_mul_def binary64_1 binary64_85 Math_round_def)

lemma sorted_progress:
  assumes "k \<le> n"
  shows "sorted (map (\<lambda>i. progressPct i n) [1..<Suc k])"
proof -
  have "sorted_wrt (\<lambda>i j. progressPct i n \<le> progressPct j n) [1..<Suc k]"
  proof (rule sorted_wrt_mono_rel [of _ "(\<le>)"])
    fix i j assume "i \<in> set [1..<Suc k]" "j \<in> set [1..<Suc k]" "i \<le> j"
    then have "0 < i" "i \<le> j" "0 < n" using assms by auto
    then show "progressPct i n \<le> progressPct j n" by (rule progressPct_mono)
  next
    show "sorted_wrt (\<le>) [1..<Suc k]" by (rule sorted_upt)
  qed
  then show ?thesis by (simp add: sorted_map)
qed

subsection \<open>Runs that fail, and the progress values of any run\<close>

lemma opens_not_isl: "list_all2 (opens h) files docs \<Longrightarrow> f \<in> set files \<Longrightarrow> \<not> isl (openTextDocument h f)"
  by (auto simp: list_all2_conv_all_nth in_set_conv_nth opens_def)

lemma completed_success:
  assumes "list_all2 (opens h) files docs"
  shows "completed h files = length files"
proof -
  have "takeWhile (\<lambda>f. \<not> isl (openTextDocument h f)) files = files"
    using opens_not_isl [OF assms] by (simp add: takeWhile_eq_all_conv)
  then show ?thesis by (simp only: completed_def)
qed

lemma completed_failure:
  assumes "list_all2 (opens h) pre docs" and "openTextDocument h f = Inl err"
  shows "completed h (pre @ f # post) = length pre"
proof -
  have "takeWhile (\<lambda>f. \<not> isl (openTextDocument h f)) (pre @ f # post) =
          pre @ takeWhile (\<lambda>f. \<not> isl (openTextDocument h f)) (f # post)"
    using opens_not_isl [OF assms(1)] by (intro takeWhile_append2) simp
  then show ?thesis using assms(2) by (simp add: completed_def)
qed

lemma events_cases:
  assumes "view h" and "workspaceName_of (workspaceFolders h) = Inr w"
    and "findFiles h includeGlob excludeGlob = Inr files"
  shows "\<exists>final. events h = AnalysisStarted #
           map (\<lambda>i. Progress (progressPct i (length files))) [1..<Suc (started h files)] @ final \<and>
           (if completed h files = length files
            then \<exists>r. final = [Progress 100, AnalysisResult r]
            else final = [AnalysisFailed] \<and> completed h files < length files)"
proof -
  from files_split [of h files] show ?thesis
  proof
    assume "\<exists>docs. list_all2 (opens h) files docs"
    then obtain docs where docs: "list_all2 (opens h) files docs" ..
    have c: "completed h files = length files" using docs by (rule completed_success)
    then have s: "started h files = length files" by (simp add: started_def)
    show ?thesis
      using events_scanned [OF assms docs] by (simp add: c s)
  next
    assume "\<exists>pre f post docs err. files = pre @ f # post \<and> list_all2 (opens h) pre docs \<and>
      openTextDocument h f = Inl err"
    then obtain pre f post docs err where
      split: "files = pre @ f # post" "list_all2 (opens h) pre docs" "openTextDocument h f = Inl err"
      by blast
    have c: "completed h files = length pre"
      unfolding split(1) using split(2,3) by (rule completed_failure)
    then have s: "started h files = Suc (length pre)"
      by (simp add: started_def split(1))
    have "events h = AnalysisStarted #
           map (\<lambda>i. Progress (progressPct i (length files))) [1..<Suc (Suc (length pre))] @
           [AnalysisFailed]"
      using events_failure [OF assms(1,2) assms(3) [unfolded split(1)] split(2,3)]
      by (simp only: split(1))
    then show ?thesis
      using c s by (simp add: split(1))
  qed
qed

lemma progressPct_3:
  "progressPct (Suc 0) (Suc (Suc (Suc 0))) = 28"
  "progressPct (Suc (Suc 0)) (Suc (Suc (Suc 0))) = 57"
  by code_simp+

lemma hyps_hostF:
  "view hostF" "workspaceName_of (workspaceFolders hostF) = Inr (js ''w'')"
  "findFiles hostF includeGlob excludeGlob = Inr ([\<lparr>fsPath = js ''/w/a.ts''\<rparr>] @ \<lparr>fsPath = js ''/w/b.ts''\<rparr> # [\<lparr>fsPath = js ''/w/c.ts''\<rparr>])"
  "list_all2 (opens hostF) [\<lparr>fsPath = js ''/w/a.ts''\<rparr>] [docF]"
  "openTextDocument hostF \<lparr>fsPath = js ''/w/b.ts''\<rparr> = Inl (Error (js ''EACCES''))"
  by (simp_all add: hostF_def workspace_host_def workspaceName_of_def opens_def glob_eval)

lemma events_hostF: "events hostF = [AnalysisStarted, Progress 28, Progress 57, AnalysisFailed]"
proof -
  have "[1..<Suc (Suc (Suc 0))] = [Suc 0, Suc (Suc 0)]"
    by (simp add: upt_rec)
  then show ?thesis
    using events_failure [OF hyps_hostF] by (simp add: progressPct_3)
qed

lemma completed_hostF: "completed hostF filesF = 1" "started hostF filesF = 2"
  by (simp_all add: started_def completed_def filesF_def hostF_def workspace_host_def js_def ch_def)

lemma progressPct_7_10: "progressPct 7 10 = 59" "Math_round (7 / 10 * 85) = 60"
  by code_simp+

lemma hyps_host3:
  "view host3" "workspaceName_of (workspaceFolders host3) = Inr (js ''w'')"
  "findFiles host3 includeGlob excludeGlob = Inr filesF"
  by (simp_all add: host3_def workspace_host_def workspaceName_of_def filesF_def glob_eval)

lemma completed_host3: "completed host3 filesF = 3" "started host3 filesF = 3"
  by (simp_all add: started_def completed_def filesF_def host3_def workspace_host_def js_def ch_def)

lemma fileDetail_Caps:
  "fileDetail \<lparr>fsPath = js ''/w/lib/b.ts''\<rparr> docF = fileLower"
  "fileDetail \<lparr>fsPath = js ''/w/.ts''\<rparr> docF = fileDot"
proof -
  have "basename (js ''/w/lib/b.ts'') = js ''b.ts''" "basename (js ''/w/.ts'') = js ''.ts''"
    by code_simp+
  moreover have "replace (extname (js ''/w/lib/b.ts'')) CHAR_DOT [] = js ''ts''"
    "replace (extname (js ''/w/.ts'')) CHAR_DOT [] = []"
    by code_simp+
  ultimately show "fileDetail \<lparr>fsPath = js ''/w/lib/b.ts''\<rparr> docF = fileLower"
    "fileDetail \<lparr>fsPath = js ''/w/.ts''\<rparr> docF = fileDot"
    by (simp_all add: fileDetail_def fileLower_def fileDot_def docF_def js_def)
qed

lemma hyps_hostCaps:
  "view hostCaps" "workspaceName_of (workspaceFolders hostCaps) = Inr (js ''w'')"
  "findFiles hostCaps includeGlob excludeGlob = Inr filesCaps"
  "list_all2 (opens hostCaps) filesCaps [docF, docF]"
  by (simp_all add: hostCaps_def workspace_host_def workspaceName_of_def filesCaps_def opens_def
      glob_eval)

lemma findings_docF:
  "secretFindings h f docF = []" "performanceFindings h f docF = []"
  by (simp_all add: secretFindings_eq secPatterns_def performanceFindings_eq nestedLoopPattern_def
      evalPattern_def docF_def regex_eval)

lemma progressPct_2:
  "progressPct (Suc 0) (Suc (Suc 0)) = 43" "progressPct (Suc (Suc 0)) (Suc (Suc 0)) = 85"
  by code_simp+

lemma events_hostCaps:
  "events hostCaps =
     [AnalysisStarted, Progress 43, Progress 85, Progress 100, AnalysisResult reportCaps]"
proof -
  have "toLocaleTimeString hostCaps = js ''12:00:00''"
    by (simp add: hostCaps_def workspace_host_def)
  moreover have "lineCount docF = 10"
    by (simp add: docF_def)
  moreover have "length filesCaps = 2" "[1..<Suc 2] = [Suc 0, 2]"
    by (simp_all add: filesCaps_def upt_rec)
  ultimately show ?thesis
    using events_scanned [OF hyps_hostCaps]
    by (simp add: progressPct_2 analysisResult_def scanned_def fileDetail_Caps findings_docF
        healthScore_def deductions_def reportCaps_def filesCaps_def fileLower_def fileDot_def)
qed

text \<open>
  The health score of a report is 100 exactly when the report has no security finding,
  no god file, no performance finding and no near-empty file.
\<close>

lemma score_100_iff:
  assumes "r \<in> set (results h)"
  shows "data_healthScore r = 100 \<longleftrightarrow>
         data_securityIssues r = [] \<and> data_godFiles r = [] \<and>
         data_performanceIssues r = [] \<and> data_unusedFiles r = []"
proof -
  from results_cases [OF assms] obtain w' files l' where r: "r = analysisResult h w' files l'"
    by blast
  have "(max 0 (min 100 (100 - deductions l')) = 100) = (deductions l' = 0)"
    by (auto simp: deductions_def)
  also have "\<dots> = (securityIssues l' = [] \<and> godFiles l' = [] \<and> performanceIssues l' = [] \<and>
      unusedFiles l' = [])"
  proof -
    have "(int a * 15 + int b * 5 + int c * 8 + int d * 2 = 0) = (a = 0 \<and> b = 0 \<and> c = 0 \<and> d = 0)"
      for a b c d :: nat
      by linarith
    then show ?thesis by (simp add: deductions_def)
  qed
  finally show ?thesis
    by (simp add: r analysisResult_def healthScore_def)
qed

text \<open>
  A run over an empty file list, when the webview is resolved and the name of the
  workspace is found: the start message, progress 100 and a report with score 100, no
  files, no lines, empty finding lists and no circular dependencies.
\<close>

lemma empty_file_set_run:
  assumes "view h" and "workspaceName_of (workspaceFolders h) = Inr w"
    and "findFiles h includeGlob excludeGlob = Inr []"
  shows "events h =
        [AnalysisStarted, Progress 100,
         AnalysisResult
           \<lparr>data_healthScore = 100, data_workspaceName = w, data_godFiles = [],
            data_securityIssues = [], data_performanceIssues = [], data_unusedFiles = [],
            data_allFiles = [], data_totalFiles = 0, data_totalLines = 0,
            data_unusedExports = 0, data_circularDeps = 0, data_scanProgress = 100,
            data_lastScanned = toLocaleTimeString h\<rparr>]"
  using assms
  by (simp add: events_def analyzeWorkspace_def try_block_def init_locals_def
      analysisResult_def healthScore_def deductions_def)

text \<open>The empty workspace \<^verbatim>\<open>/w\<close>: scenario D.\<close>

lemma events_host0: "events host0 = [AnalysisStarted, Progress 100, AnalysisResult report0]"
proof -
  have "view host0" "workspaceName_of (workspaceFolders host0) = Inr (js ''w'')"
    "findFiles host0 includeGlob excludeGlob = Inr []" "toLocaleTimeString host0 = js ''12:00:00''"
    by (simp_all add: host0_def workspace_host_def workspaceName_of_def findFiles_def)
  then show ?thesis
    using empty_file_set_run [of host0 "js ''w''"] by (simp add: report0_def)
qed

text \<open>
  With an empty file list a report is posted unless the webview is unresolved or the
  list of workspace folders is the empty array.
\<close>

lemma empty_file_set_results:
  assumes "findFiles h includeGlob excludeGlob = Inr []"
  shows "results h = [] \<longleftrightarrow> \<not> view h \<or> workspaceFolders h = Some []"
proof (cases "view h")
  case False
  then show ?thesis by (simp add: results_def events_no_view)
next
  case True
  show ?thesis
  proof (cases "workspaceName_of (workspaceFolders h)")
    case (Inl err)
    then have "workspaceFolders h = Some []"
      by (auto simp: workspaceName_of_def split: option.splits list.splits)
    moreover have "results h = []"
      using True Inl by (simp add: results_def events_no_name)
    ultimately show ?thesis by simp
  next
    case (Inr w)
    then have "workspaceFolders h \<noteq> Some []"
      by (auto simp: workspaceName_of_def)
    moreover have "results h \<noteq> []"
      using empty_file_set_run [OF True Inr assms] by (simp add: results_def)
    ultimately show ?thesis using True by simp
  qed
qed

section \<open>The claims\<close>

text \<open>
  C1. Every report that a run posts carries the health score
  \<open>clamp(100 - deductions, 0, 100)\<close>, where the deductions are 15 for each security
  finding, 5 for each god file, 8 for each performance finding and 2 for each near-empty
  file of that report; the score lies between 0 and 100.
\<close>

theorem C1_health_score:
  assumes "r \<in> set (results h)"
  shows "data_healthScore r =
           max 0 (min 100 (100 -
             (15 * int (length (data_securityIssues r)) + 5 * int (length (data_godFiles r)) +
              8 * int (length (data_performanceIssues r)) +
              2 * int (length (data_unusedFiles r))))) \<and>
         0 \<le> data_healthScore r \<and> data_healthScore r \<le> 100"
proof -
  from results_cases [OF assms] obtain w files l' where "r = analysisResult h w files l'"
    by blast
  then show ?thesis
    by (simp add: analysisResult_def healthScore_def deductions_def)
qed

text \<open>The workspace with the key file: two security findings and one near-empty file
  give 100 - 32.\<close>

theorem C1_health_score_witness:
  "reportE \<in> set (results hostE) \<and>
   data_healthScore reportE = max 0 (min 100 (100 - (15 * 2 + 5 * 0 + 8 * 0 + 2 * 1))) \<and>
   0 \<le> data_healthScore reportE \<and> data_healthScore reportE \<le> 100"
proof -
  have "reportE \<in> set (results hostE)"
    by (simp add: results_def events_hostE)
  from this C1_health_score [OF this] show ?thesis
    by (simp add: reportE_def)
qed

text \<open>
  C2. An opened workspace without folders has an empty file set, yet a run posts no
  report for it: after the start message the name of the first folder is read from the
  empty folder list, outside the \<^verbatim>\<open>try\<close> block, so the call is rejected with the
  \<^verbatim>\<open>TypeError\<close> and neither a report nor a failure message follows.
\<close>

theorem C2_empty_folder_list:
  "view hostNoFolders \<and> workspaceFolders hostNoFolders = Some [] \<and>
   findFiles hostNoFolders includeGlob excludeGlob = Inr [] \<and>
   effects (analyzeWorkspace hostNoFolders) = [PostMessage AnalysisStarted] \<and>
   rejected (analyzeWorkspace hostNoFolders) =
     Some (Error (js ''Cannot read properties of undefined'')) \<and>
   results hostNoFolders = []"
  by (simp add: hostNoFolders_def host0_def workspace_host_def findFiles_def results_def
      events_def analyzeWorkspace_def workspaceName_of_def)

text \<open>
  C3. When every file opens, the security findings of the report are, file by file and
  in the order of \<^verbatim>\<open>secPatterns\<close>, one finding for each pattern that matches the text at
  least once, however many matches it has: its match field is the first match cut to 40
  code units and followed by the ellipsis, its line is 0.
\<close>

theorem C3_one_finding_per_matching_pattern:
  assumes "view h" and "workspaceName_of (workspaceFolders h) = Inr w"
    and "findFiles h includeGlob excludeGlob = Inr files" and "list_all2 (opens h) files docs"
  shows "map data_securityIssues (results h) =
    [concat (map2 (\<lambda>file doc.
        concat (map (\<lambda>pattern.
            case js_match (getText doc) pattern of
              None \<Rightarrow> []
            | Some matches \<Rightarrow>
                [\<lparr>si_file = asRelativePath h file, si_line = 0,
                  si_match = take 40 (hd matches) @ [ellipsis]\<rparr>])
          secPatterns))
      files docs)]"
proof -
  have "secretFindings h = (\<lambda>file doc.
        concat (map (\<lambda>pattern.
            case js_match (getText doc) pattern of
              None \<Rightarrow> []
            | Some matches \<Rightarrow>
                [\<lparr>si_file = asRelativePath h file, si_line = 0,
                  si_match = take 40 (hd matches) @ [ellipsis]\<rparr>])
          secPatterns))"
    by (intro ext) (rule secretFindings_eq)
  then show ?thesis
    using results_scanned [OF assms] by (simp add: analysisResult_def scanned_def)
qed

text \<open>Scenario E: the first pattern matches three times in the key file and gives one
  finding; the vendor key gives the other.\<close>

theorem C3_one_finding_per_matching_pattern_witness:
  "view hostE \<and> workspaceName_of (workspaceFolders hostE) = Inr (js ''w'') \<and>
   findFiles hostE includeGlob excludeGlob = Inr [uriE] \<and> list_all2 (opens hostE) [uriE] [docE] \<and>
   js_match (getText docE) (secPatterns ! 0) =
     Some [js ''TOKEN=\"aaaaaaaa1\"'', js ''TOKEN=\"bbbbbbbb2\"'', js ''TOKEN=\"cccccccc3\"''] \<and>
   map data_securityIssues (results hostE) =
     [[\<lparr>si_file = js ''keys.js'', si_line = 0,
        si_match = js ''TOKEN=\"aaaaaaaa1\"'' @ [ellipsis]\<rparr>,
       \<lparr>si_file = js ''keys.js'', si_line = 0,
        si_match = js ''sk-0123456789abcdefghij0123456789abcdefg'' @ [ellipsis]\<rparr>]]"
proof -
  have hyps: "view hostE" "workspaceName_of (workspaceFolders hostE) = Inr (js ''w'')"
    "findFiles hostE includeGlob excludeGlob = Inr [uriE]"
    by (simp_all add: hostE_def workspace_host_def workspaceName_of_def uriE_def glob_eval)
  have m: "js_match (getText docE) (secPatterns ! 0) =
     Some [js ''TOKEN=\"aaaaaaaa1\"'', js ''TOKEN=\"bbbbbbbb2\"'', js ''TOKEN=\"cccccccc3\"'']"
    by (simp add: docE_def secrets_textE)
  have "map data_securityIssues (results hostE) =
     [[\<lparr>si_file = js ''keys.js'', si_line = 0,
        si_match = js ''TOKEN=\"aaaaaaaa1\"'' @ [ellipsis]\<rparr>,
       \<lparr>si_file = js ''keys.js'', si_line = 0,
        si_match = js ''sk-0123456789abcdefghij0123456789abcdefg'' @ [ellipsis]\<rparr>]]"
    using C3_one_finding_per_matching_pattern [OF hyps opens_hostE]
    by (simp add: results_def events_hostE reportE_def)
  with hyps m opens_hostE show ?thesis by simp
qed

text \<open>
  C4. When every file opens, the performance findings of the report are, file by file,
  one finding of type "Nested Loops" whose count is the number of strings that
  \<^verbatim>\<open>text.match\<close> returns for the nested-loop pattern, if it returns any, followed by
  the finding for \<^verbatim>\<open>eval\<close> (of a different type, with count 1) if the text calls it.
  \<^verbatim>\<open>text.match\<close> returns strings exactly when the pattern matches at some index of the
  text, and each string is the match reported at some index. The matches are found from
  left to right without overlap: the text of scenario C has one, two loop nests one
  after the other have two, a loop nested three deep has one, and two loops in sequence
  have none. Between the parentheses of the outer loop the pattern does not cross a
  line terminator; the white space of \<^verbatim>\<open>\s\<close> is that of ECMAScript.
\<close>

theorem C4_nested_loops_finding:
  "(view h \<and> workspaceName_of (workspaceFolders h) = Inr w \<and>
    findFiles h includeGlob excludeGlob = Inr files \<and> list_all2 (opens h) files docs \<longrightarrow>
    map data_performanceIssues (results h) =
      [concat (map2 (\<lambda>file doc.
          (case js_match (getText doc) nestedLoopPattern of
             None \<Rightarrow> []
           | Some nestedLoops \<Rightarrow>
               [\<lparr>pi_file = asRelativePath h file, pi_count = int (length nestedLoops),
                 pi_type = js ''Nested Loops''\<rparr>]) @
          (if js_test evalPattern (getText doc)
           then [\<lparr>pi_file = asRelativePath h file, pi_count = 1,
                  pi_type = js ''eval() usage''\<rparr>]
           else []))
        files docs)]) \<and>
   js ''eval() usage'' \<noteq> js ''Nested Loops'' \<and>
   (js_match s nestedLoopPattern \<noteq> None) =
     list_ex (\<lambda>i. ends nestedLoopPattern (prev_at None s i) (drop i s) \<noteq> [])
       [0..<Suc (length s)] \<and>
   (js_match s nestedLoopPattern = Some ms \<longrightarrow>
      list_all (\<lambda>m. list_ex (\<lambda>i. case ends nestedLoopPattern (prev_at None s i) (drop i s) of
                                    [] \<Rightarrow> False | n # _ \<Rightarrow> m = take n (drop i s))
                         [0..<Suc (length s)]) ms) \<and>
   js_match (js ''for (i=0;i<n;i++) { for (j=0;j<n;j++) {} }'') nestedLoopPattern =
     Some [js ''for (i=0;i<n;i++) { for (''] \<and>
   js_match (js ''for(;;){for(;;){}} for(;;){for(;;){}}'') nestedLoopPattern =
     Some [js ''for(;;){for('', js ''for(;;){for(''] \<and>
   js_match (js ''for(a){for(b){for(c){}}}'') nestedLoopPattern = Some [js ''for(a){for(b){for(''] \<and>
   js_match (js ''for(a){for(b) for(c) }'') nestedLoopPattern = Some [js ''for(a){for(b) for(''] \<and>
   js_match (js ''for(a){ for(1) } x){ for(2) }'') nestedLoopPattern = Some [js ''for(a){ for(''] \<and>
   js_match (js ''for (a) { b } for (c) { d }'') nestedLoopPattern = None \<and>
   js_match [] nestedLoopPattern = None \<and>
   list_all (\<lambda>c. js_match (js ''for(a'' @ c # js ''){for('') nestedLoopPattern = None)
     [0x0A, 0x0D, 0x2028, 0x2029] \<and>
   list_all (\<lambda>c. js_match (js ''for(a'' @ c # js ''){for('') nestedLoopPattern =
       Some [js ''for(a'' @ c # js ''){for('']) [0x09, 0x0B, 0x0C, 0x0E, 0x85, 0x2027, 0x202A] \<and>
   list_all (\<lambda>c. js_match (js ''for(a){'' @ c # js ''for('') nestedLoopPattern =
       Some [js ''for(a){'' @ c # js ''for('']) [0x0A, 0x0D, 0x2028, 0x2029] \<and>
   list_all (\<lambda>c. js_match (js ''for'' @ c # js ''(a)'' @ c # js ''{for'' @ c # js ''('') nestedLoopPattern =
       Some [js ''for'' @ c # js ''(a)'' @ c # js ''{for'' @ c # js ''(''])
     [0x09, 0x0A, 0x0B, 0x0C, 0x0D, 0x20, 0xA0, 0x1680, 0x2000, 0x2005, 0x200A, 0x2028, 0x2029,
      0x202F, 0x205F, 0x3000, 0xFEFF] \<and>
   list_all (\<lambda>c. js_match (js ''for'' @ c # js ''(a){for('') nestedLoopPattern = None)
     [0x08, 0x0E, 0x1F, 0x21, 0x85, 0x9F, 0xA1, 0x167F, 0x1681, 0x180E, 0x1FFF, 0x200B, 0x2027,
      0x202A, 0x202E, 0x2030, 0x205E, 0x2060, 0x2FFF, 0x3001, 0xFEFE, 0xFFFF] \<and>
   js_test evalPattern (js ''eval(x)'') \<and> js_test evalPattern (js ''a = eval  (x)'') \<and>
   js_test evalPattern (js ''w.eval(x)'') \<and>
   \<not> js_test evalPattern (js ''medieval(x)'') \<and> \<not> js_test evalPattern (js ''_eval(x)'') \<and>
   \<not> js_test evalPattern (js ''eval x'') \<and> \<not> js_test evalPattern (js ''evaluate(x)'') \<and>
   list_all (\<lambda>c. \<not> js_test evalPattern (c # js ''eval(x)''))
     [0x30, 0x39, 0x41, 0x5A, 0x5F, 0x61, 0x7A] \<and>
   list_all (\<lambda>c. js_test evalPattern (c # js ''eval(x)''))
     [0x2F, 0x3A, 0x40, 0x5B, 0x5E, 0x60, 0x7B]"
proof -
  have run: "map data_performanceIssues (results h) =
      [concat (map2 (\<lambda>file doc.
          (case js_match (getText doc) nestedLoopPattern of
             None \<Rightarrow> []
           | Some nestedLoops \<Rightarrow>
               [\<lparr>pi_file = asRelativePath h file, pi_count = int (length nestedLoops),
                 pi_type = js ''Nested Loops''\<rparr>]) @
          (if js_test evalPattern (getText doc)
           then [\<lparr>pi_file = asRelativePath h file, pi_count = 1,
                  pi_type = js ''eval() usage''\<rparr>]
           else []))
        files docs)]"
    if a: "view h \<and> workspaceName_of (workspaceFolders h) = Inr w \<and>
      findFiles h includeGlob excludeGlob = Inr files \<and> list_all2 (opens h) files docs"
  proof -
    have "performanceFindings h = (\<lambda>file doc.
          (case js_match (getText doc) nestedLoopPattern of
             None \<Rightarrow> []
           | Some nestedLoops \<Rightarrow>
               [\<lparr>pi_file = asRelativePath h file, pi_count = int (length nestedLoops),
                 pi_type = js ''Nested Loops''\<rparr>]) @
          (if js_test evalPattern (getText doc)
           then [\<lparr>pi_file = asRelativePath h file, pi_count = 1,
                  pi_type = js ''eval() usage''\<rparr>]
           else []))"
      by (intro ext) (rule performanceFindings_eq)
    then show ?thesis
      using a results_scanned [of h w files docs] by (simp add: analysisResult_def scanned_def)
  qed
  have types: "js ''eval() usage'' \<noteq> js ''Nested Loops''"
    by (simp add: js_def ch_def)
  have ex: "list_ex Q [0..<Suc (length s)] = (\<exists>i\<le>length s. Q i)" for Q
    unfolding list_ex_iff by (auto simp del: upt_Suc simp: less_Suc_eq_le)
  have "(js_match s nestedLoopPattern \<noteq> None) =
      (\<exists>i\<le>length s. ends nestedLoopPattern (prev_at None s i) (drop i s) \<noteq> [])"
    unfolding js_match_None_iff by blast
  then have some: "(js_match s nestedLoopPattern \<noteq> None) =
     list_ex (\<lambda>i. ends nestedLoopPattern (prev_at None s i) (drop i s) \<noteq> [])
       [0..<Suc (length s)]"
    by (simp only: ex)
  have each: "list_all (\<lambda>m. list_ex (\<lambda>i. case ends nestedLoopPattern (prev_at None s i) (drop i s) of
                                    [] \<Rightarrow> False | n # _ \<Rightarrow> m = take n (drop i s))
                         [0..<Suc (length s)]) ms"
    if "js_match s nestedLoopPattern = Some ms"
    unfolding list_all_iff
  proof
    fix m assume "m \<in> set ms"
    moreover have "match_g nestedLoopPattern None 0 s = ms"
      using that by (simp add: js_match_def split: list.splits)
    ultimately obtain i n ns where "i \<le> length s"
      "ends nestedLoopPattern (prev_at None s i) (drop i s) = n # ns" "m = take n (drop i s)"
      using match_g_member [of m nestedLoopPattern None 0 s] by blast
    then show "list_ex (\<lambda>i. case ends nestedLoopPattern (prev_at None s i) (drop i s) of
                                    [] \<Rightarrow> False | n # _ \<Rightarrow> m = take n (drop i s))
                         [0..<Suc (length s)]"
      unfolding ex by (intro exI [of _ i]) simp
  qed
  show ?thesis
    using run types some each
    by (simp only: nested_pins nested_line_terminators nested_white_space eval_pins simp_thms)
      blast
qed

text \<open>
  A file with two loop nests and a call of \<^verbatim>\<open>eval\<close>: one finding "Nested Loops" with
  count 2 and one finding for \<^verbatim>\<open>eval\<close>. Scenario C as a run: one finding
  "Nested Loops" with count 1.
\<close>

theorem C4_nested_loops_finding_witness:
  "view hostN \<and> workspaceName_of (workspaceFolders hostN) = Inr (js ''w'') \<and>
   findFiles hostN includeGlob excludeGlob = Inr [uriN] \<and>
   list_all2 (opens hostN) [uriN] [docN] \<and>
   getText docN = js ''for(;;){for(;;){}} for(;;){for(;;){}} eval(x)'' \<and>
   js_match (getText docN) nestedLoopPattern = Some [js ''for(;;){for('', js ''for(;;){for(''] \<and>
   map data_performanceIssues (results hostN) =
     [[\<lparr>pi_file = js ''nested.js'', pi_count = 2, pi_type = js ''Nested Loops''\<rparr>,
       \<lparr>pi_file = js ''nested.js'', pi_count = 1, pi_type = js ''eval() usage''\<rparr>]] \<and>
   list_ex (\<lambda>i. ends nestedLoopPattern (prev_at None (getText docN) i) (drop i (getText docN)) \<noteq> [])
     [0..<Suc (length (getText docN))] \<and>
   list_all (\<lambda>m. list_ex (\<lambda>i. case ends nestedLoopPattern (prev_at None (getText docN) i)
                                       (drop i (getText docN)) of
                                [] \<Rightarrow> False | n # _ \<Rightarrow> m = take n (drop i (getText docN)))
                       [0..<Suc (length (getText docN))])
     [js ''for(;;){for('', js ''for(;;){for(''] \<and>
   view hostC \<and> workspaceName_of (workspaceFolders hostC) = Inr (js ''w'') \<and>
   findFiles hostC includeGlob excludeGlob = Inr [uriC] \<and>
   list_all2 (opens hostC) [uriC] [docC] \<and>
   getText docC = js ''for (i=0;i<n;i++) { for (j=0;j<n;j++) {} }'' \<and>
   map data_performanceIssues (results hostC) =
     [[\<lparr>pi_file = js ''loops.js'', pi_count = 1, pi_type = js ''Nested Loops''\<rparr>]]"
proof -
  have m: "js_match (getText docN) nestedLoopPattern = Some [js ''for(;;){for('', js ''for(;;){for('']"
    by (simp add: docN_def nested_textN)
  have t: "js_test evalPattern (getText docN)"
    by (simp add: docN_def eval_textN)
  have rel: "asRelativePath hostN uriN = js ''nested.js''" "asRelativePath hostC uriC = js ''loops.js''"
    by (simp_all add: hostN_def hostC_def workspace_host_def uriN_def uriC_def js_def)
  note n = C4_nested_loops_finding [of hostN "js ''w''" "[uriN]" "[docN]" "getText docN"
      "[js ''for(;;){for('', js ''for(;;){for('']"]
  have "map data_performanceIssues (results hostN) =
     [[\<lparr>pi_file = js ''nested.js'', pi_count = 2, pi_type = js ''Nested Loops''\<rparr>,
       \<lparr>pi_file = js ''nested.js'', pi_count = 1, pi_type = js ''eval() usage''\<rparr>]]"
    using n hyps_hostN opens_hostN m t rel by simp
  moreover have "list_ex (\<lambda>i. ends nestedLoopPattern (prev_at None (getText docN) i) (drop i (getText docN)) \<noteq> [])
     [0..<Suc (length (getText docN))]"
    using n m by simp
  moreover have "list_all (\<lambda>m. list_ex (\<lambda>i. case ends nestedLoopPattern (prev_at None (getText docN) i)
                                       (drop i (getText docN)) of
                                [] \<Rightarrow> False | n # _ \<Rightarrow> m = take n (drop i (getText docN)))
                       [0..<Suc (length (getText docN))])
     [js ''for(;;){for('', js ''for(;;){for('']"
    using n m by blast
  moreover have "map data_performanceIssues (results hostC) =
     [[\<lparr>pi_file = js ''loops.js'', pi_count = 1, pi_type = js ''Nested Loops''\<rparr>]]"
    using C4_nested_loops_finding [of hostC "js ''w''" "[uriC]" "[docC]"] hyps_hostC opens_hostC
      nested_textC eval_textC rel
    by (simp add: docC_def)
  ultimately show ?thesis
    using hyps_hostN opens_hostN hyps_hostC opens_hostC m
    by (simp add: docN_def textN_def docC_def textC_def)
qed

text \<open>
  C5, as the code has it. The records of all files of a report are those of the files
  found, with the line counts of their documents; the god files are exactly the records
  with more than 500 lines, in the same order, so a record of exactly 500 lines is not
  among them. They form a subset of all files, which need not be strict.
\<close>

theorem C5_god_files:
  assumes "r \<in> set (results h)"
  shows "(\<exists>files docs. findFiles h includeGlob excludeGlob = Inr files \<and> list_all2 (opens h) files docs \<and>
            data_allFiles r = map2 fileDetail files docs \<and>
            map fd_lines (data_allFiles r) = map lineCount docs) \<and>
         data_godFiles r = filter (\<lambda>fd. 500 < fd_lines fd) (data_allFiles r) \<and>
         (\<forall>fd \<in> set (data_allFiles r). fd \<in> set (data_godFiles r) \<longleftrightarrow> 500 < fd_lines fd) \<and>
         (\<forall>fd \<in> set (data_allFiles r). fd_lines fd = 500 \<longrightarrow> fd \<notin> set (data_godFiles r)) \<and>
         set (data_godFiles r) \<subseteq> set (data_allFiles r)"
proof -
  from results_files [OF assms] obtain w files docs where
    hyps: "findFiles h includeGlob excludeGlob = Inr files" "list_all2 (opens h) files docs"
    and r: "r = analysisResult h w files (scanned h files docs)"
    by blast
  have len: "length files = length docs"
    using hyps(2) by (rule list_all2_lengthD)
  have "map fd_lines (map2 fileDetail files docs) = map lineCount docs"
    using len by (induction files docs rule: list_induct2) (simp_all add: fileDetail_def)
  then have "\<exists>files docs. findFiles h includeGlob excludeGlob = Inr files \<and> list_all2 (opens h) files docs \<and>
            data_allFiles r = map2 fileDetail files docs \<and>
            map fd_lines (data_allFiles r) = map lineCount docs"
    using hyps by (auto simp: r analysisResult_def scanned_def)
  moreover have "data_godFiles r = filter (\<lambda>fd. 500 < fd_lines fd) (data_allFiles r)"
    by (simp add: r analysisResult_def scanned_def)
  ultimately show ?thesis by auto
qed

text \<open>A file of 501 lines is a god file, a file of one line is not.\<close>

theorem C5_god_files_witness:
  "reportB \<in> set (results hostB) \<and> data_godFiles reportB = [fileB] \<and>
   data_allFiles reportB = [fileB] \<and> fd_lines fileB = 501 \<and>
   reportE \<in> set (results hostE) \<and> data_godFiles reportE = [] \<and>
   data_allFiles reportE = [fileE] \<and> fd_lines fileE = 1"
proof -
  have b: "reportB \<in> set (results hostB)"
    by (simp add: results_def events_hostB)
  have e: "reportE \<in> set (results hostE)"
    by (simp add: results_def events_hostE)
  have "data_allFiles reportB = [fileB]" "data_allFiles reportE = [fileE]"
    by (simp_all add: reportB_def reportE_def)
  moreover have "fd_lines fileB = 501" "fd_lines fileE = 1"
    by (simp_all add: fileB_def fileE_def)
  ultimately show ?thesis
    using b e C5_god_files [OF b] C5_god_files [OF e] by simp
qed

text \<open>C5 as stated fails for the workspace whose only file has 501 lines: the god files
  are all the files.\<close>

theorem C5_counterexample: "map god_files_strict_subset (results hostB) = [False]"
  by (simp add: results_def events_hostB god_files_strict_subset_def reportB_def)

text \<open>
  C6, as the code has it. The near-empty files of a report are exactly the records
  with more than 0 and fewer than 5 lines, in the order of all files; a record of zero
  lines is never among them. They form a subset of all files, which need not be strict.
\<close>

theorem C6_near_empty_files:
  assumes "r \<in> set (results h)"
  shows "(\<exists>files docs. findFiles h includeGlob excludeGlob = Inr files \<and> list_all2 (opens h) files docs \<and>
            data_allFiles r = map2 fileDetail files docs \<and>
            map fd_lines (data_allFiles r) = map lineCount docs) \<and>
         data_unusedFiles r =
           filter (\<lambda>fd. 0 < fd_lines fd \<and> fd_lines fd < 5) (data_allFiles r) \<and>
         (\<forall>fd \<in> set (data_allFiles r).
            fd \<in> set (data_unusedFiles r) \<longleftrightarrow> 0 < fd_lines fd \<and> fd_lines fd < 5) \<and>
         (\<forall>fd \<in> set (data_allFiles r). fd_lines fd = 0 \<longrightarrow> fd \<notin> set (data_unusedFiles r)) \<and>
         set (data_unusedFiles r) \<subseteq> set (data_allFiles r)"
proof -
  from results_files [OF assms] obtain w files docs where
    hyps: "findFiles h includeGlob excludeGlob = Inr files" "list_all2 (opens h) files docs"
    and r: "r = analysisResult h w files (scanned h files docs)"
    by blast
  have len: "length files = length docs"
    using hyps(2) by (rule list_all2_lengthD)
  have "map fd_lines (map2 fileDetail files docs) = map lineCount docs"
    using len by (induction files docs rule: list_induct2) (simp_all add: fileDetail_def)
  then have "\<exists>files docs. findFiles h includeGlob excludeGlob = Inr files \<and> list_all2 (opens h) files docs \<and>
            data_allFiles r = map2 fileDetail files docs \<and>
            map fd_lines (data_allFiles r) = map lineCount docs"
    using hyps by (auto simp: r analysisResult_def scanned_def)
  moreover have "data_unusedFiles r =
      filter (\<lambda>fd. 0 < fd_lines fd \<and> fd_lines fd < 5) (data_allFiles r)"
    by (simp add: r analysisResult_def scanned_def conj_commute)
  ultimately show ?thesis by auto
qed

text \<open>A file of one line is near-empty, a file of 501 lines is not.\<close>

theorem C6_near_empty_files_witness:
  "reportE \<in> set (results hostE) \<and> data_unusedFiles reportE = [fileE] \<and>
   data_allFiles reportE = [fileE] \<and> fd_lines fileE = 1 \<and>
   reportB \<in> set (results hostB) \<and> data_unusedFiles reportB = [] \<and>
   data_allFiles reportB = [fileB] \<and> fd_lines fileB = 501"
proof -
  have b: "reportB \<in> set (results hostB)"
    by (simp add: results_def events_hostB)
  have e: "reportE \<in> set (results hostE)"
    by (simp add: results_def events_hostE)
  have "data_allFiles reportB = [fileB]" "data_allFiles reportE = [fileE]"
    by (simp_all add: reportB_def reportE_def)
  moreover have "fd_lines fileB = 501" "fd_lines fileE = 1"
    by (simp_all add: fileB_def fileE_def)
  ultimately show ?thesis
    using b e C6_near_empty_files [OF b] C6_near_empty_files [OF e] by simp
qed

text \<open>C6 as stated fails for the workspace whose only file has one line: the near-empty
  files are all the files.\<close>

theorem C6_counterexample: "map near_empty_strict_subset (results hostE) = [False]"
  by (simp add: results_def events_hostE near_empty_strict_subset_def reportE_def)

text \<open>
  C7, as the code has it. For a run that reaches the loop, the progress values are one
  value \<^verbatim>\<open>Math.round((i / n) * 85)\<close> (in binary64 arithmetic) for the \<open>i\<close>-th of the
  \<open>n\<close> files, posted when its iteration begins and before the file is opened, for every
  file up to and including the first that fails to open, followed by 100 if every file
  opened. The progress values of every run are non-decreasing, and those of a run that
  posts a report end with 100.
\<close>

theorem C7_progress_values:
  "(view h \<and> workspaceName_of (workspaceFolders h) = Inr w \<and> findFiles h includeGlob excludeGlob = Inr files \<longrightarrow>
      progress_values (events h) =
        map (\<lambda>i. progressPct i (length files)) [1..<Suc (started h files)] @
        (if completed h files = length files then [100] else [])) \<and>
   sorted (progress_values (events h)) \<and>
   (r \<in> set (results h) \<longrightarrow>
      progress_values (events h) \<noteq> [] \<and> last (progress_values (events h)) = 100)"
proof -
  have vals: "progress_values (events h) =
        map (\<lambda>i. progressPct i (length files)) [1..<Suc (started h files)] @
        (if completed h files = length files then [100] else [])"
    if "view h" "workspaceName_of (workspaceFolders h) = Inr w" "findFiles h includeGlob excludeGlob = Inr files"
    for w files
    using events_cases [OF that]
    by (auto simp: progress_values_append progress_values_Progress split: if_splits)
  have sorted_values: "sorted (map (\<lambda>i. progressPct i (length files)) [1..<Suc (started h files)] @
        (if completed h files = length files then [100] else []))" for files
  proof -
    have le: "started h files \<le> length files" by (simp add: started_def)
    have "progressPct i (length files) \<le> 100" if "i \<in> set [1..<Suc (started h files)]" for i
    proof -
      have "0 < i" "i \<le> length files" using that le by auto
      then have "progressPct i (length files) \<le> 85" by (rule progressPct_le_85)
      then show ?thesis by simp
    qed
    then show ?thesis
      using sorted_progress [OF le] by (auto simp: sorted_append)
  qed
  have "sorted (progress_values (events h))"
  proof (cases "view h")
    case False
    then show ?thesis by (simp add: events_no_view)
  next
    case True
    show ?thesis
    proof (cases "workspaceName_of (workspaceFolders h)")
      case (Inl err)
      then show ?thesis using True by (simp add: events_no_name)
    next
      case (Inr w')
      show ?thesis
      proof (cases "findFiles h includeGlob excludeGlob")
        case (Inl err)
        then show ?thesis using True Inr by (simp add: events_findFiles_failure)
      next
        case ff: (Inr files')
        show ?thesis
          using vals [OF True Inr ff] sorted_values [of files'] by simp
      qed
    qed
  qed
  moreover have "progress_values (events h) \<noteq> [] \<and> last (progress_values (events h)) = 100"
    if "r \<in> set (results h)"
  proof -
    from results_cases [OF that] obtain w' files' docs where
      hyps: "view h" "workspaceName_of (workspaceFolders h) = Inr w'" "findFiles h includeGlob excludeGlob = Inr files'"
        "list_all2 (opens h) files' docs"
      by blast
    have "completed h files' = length files'"
      using hyps(4) by (rule completed_success)
    then show ?thesis
      using vals [OF hyps(1-3)] by simp
  qed
  ultimately show ?thesis using vals by blast
qed

text \<open>Three files that open give 28, 57, 85 and 100; when the second fails, 28 and 57.\<close>

theorem C7_progress_values_witness:
  "view host3 \<and> workspaceName_of (workspaceFolders host3) = Inr (js ''w'') \<and>
   findFiles host3 includeGlob excludeGlob = Inr filesF \<and> completed host3 filesF = length filesF \<and>
   progress_values (events host3) = [28, 57, 85, 100] \<and>
   sorted (progress_values (events host3)) \<and>
   view hostF \<and> workspaceName_of (workspaceFolders hostF) = Inr (js ''w'') \<and>
   findFiles hostF includeGlob excludeGlob = Inr filesF \<and> completed hostF filesF = 1 \<and> started hostF filesF = 2 \<and>
   progress_values (events hostF) = [28, 57]"
proof -
  have upt: "[Suc 0..<4] = [Suc 0, Suc (Suc 0), 3]" "[Suc 0..<3] = [Suc 0, Suc (Suc 0)]"
    by (simp_all add: upt_rec)
  have len: "length filesF = 3"
    by (simp add: filesF_def)
  have pct: "progressPct (Suc 0) 3 = 28" "progressPct (Suc (Suc 0)) 3 = 57" "progressPct 3 3 = 85"
    using progressPct_3 progressPct_all [of 3] by (simp_all add: numeral_3_eq_3)
  have f: "findFiles hostF includeGlob excludeGlob = Inr filesF"
    using hyps_hostF(3) by (simp add: filesF_def)
  have "progress_values (events host3) = [28, 57, 85, 100]"
    using C7_progress_values [of host3 "js ''w''" filesF] hyps_host3
    by (simp add: completed_host3 len upt pct)
  moreover have "progress_values (events hostF) = [28, 57]"
    using C7_progress_values [of hostF "js ''w''" filesF] hyps_hostF(1,2) f
    by (simp add: completed_hostF len upt pct)
  ultimately show ?thesis
    using hyps_host3 hyps_hostF(1,2) f completed_host3 completed_hostF len by simp
qed

text \<open>C7 as stated fails when the second of three files cannot be opened: one file was
  completed, and two progress values were posted.\<close>

theorem C7_counterexample:
  "progress_values (events hostF) = [28, 57] \<and> progress_after_completion hostF filesF = [28]"
proof -
  have "[1..<Suc (Suc 0)] = [Suc 0]" by simp
  then show ?thesis
    using completed_hostF(1) progressPct_3(1)
    by (simp add: events_hostF progress_after_completion_def filesF_def)
qed

text \<open>
  C8. When the first file that fails to open is reached, the run posts the start
  message, the progress messages of the iterations begun so far, shows the error and posts
  one failure message, which has no payload; no report is posted, and the call itself
  completes. The detectors are total functions of the text, so the only exception of an
  iteration is that of opening the file.
\<close>

theorem C8_failure_aborts_scan:
  assumes "view h" and "workspaceName_of (workspaceFolders h) = Inr w"
    and "findFiles h includeGlob excludeGlob = Inr (pre @ f # post)" and "list_all2 (opens h) pre docs"
    and "openTextDocument h f = Inl err"
  shows "effects (analyzeWorkspace h) =
           PostMessage AnalysisStarted #
           map (\<lambda>i. PostMessage (Progress (progressPct i (length (pre @ f # post)))))
             [1..<Suc (Suc (length pre))] @
           [ShowErrorMessage (js ''Analysis failed: '' @ msg_of err), PostMessage AnalysisFailed] \<and>
         events h =
           AnalysisStarted #
           map (\<lambda>i. Progress (progressPct i (length (pre @ f # post)))) [1..<Suc (Suc (length pre))] @
           [AnalysisFailed] \<and>
         results h = [] \<and> rejected (analyzeWorkspace h) = None"
proof -
  have run: "scanFiles h (length (pre @ f # post)) (pre @ f # post) init_locals [] =
      (Inl err, progress_effects (length (pre @ f # post)) 0 (Suc (length pre)))"
    using scanFiles_failure [OF assms(4,5), of "length (pre @ f # post)" post init_locals "[]"]
    by (simp add: init_locals_def)
  have "effects (analyzeWorkspace h) =
           PostMessage AnalysisStarted #
           map (\<lambda>i. PostMessage (Progress (progressPct i (length (pre @ f # post)))))
             [1..<Suc (Suc (length pre))] @
           [ShowErrorMessage (js ''Analysis failed: '' @ msg_of err), PostMessage AnalysisFailed]"
    using assms(1-3) run
    by (simp add: analyzeWorkspace_def try_block_def progress_effects_def)
  moreover have ev: "events h =
           AnalysisStarted #
           map (\<lambda>i. Progress (progressPct i (length (pre @ f # post)))) [1..<Suc (Suc (length pre))] @
           [AnalysisFailed]"
    using assms by (rule events_failure)
  moreover have "results h = []"
    by (simp add: results_def ev reports_append reports_Progress)
  moreover have "rejected (analyzeWorkspace h) = None"
    using assms(1-3) run by (simp add: analyzeWorkspace_def try_block_def)
  ultimately show ?thesis by simp
qed

text \<open>The workspace whose second file cannot be opened.\<close>

theorem C8_failure_aborts_scan_witness:
  "view hostF \<and> workspaceName_of (workspaceFolders hostF) = Inr (js ''w'') \<and>
   findFiles hostF includeGlob excludeGlob = Inr filesF \<and>
   openTextDocument hostF (filesF ! 0) = Inr docF \<and>
   openTextDocument hostF (filesF ! 1) = Inl (Error (js ''EACCES'')) \<and>
   effects (analyzeWorkspace hostF) =
     [PostMessage AnalysisStarted, PostMessage (Progress 28), PostMessage (Progress 57),
      ShowErrorMessage (js ''Analysis failed: EACCES''), PostMessage AnalysisFailed] \<and>
   events hostF = [AnalysisStarted, Progress 28, Progress 57, AnalysisFailed] \<and>
   results hostF = [] \<and> rejected (analyzeWorkspace hostF) = None"
proof -
  have "[1..<Suc (Suc (Suc 0))] = [Suc 0, 2]"
    by (simp add: upt_rec)
  then show ?thesis
    using C8_failure_aborts_scan [OF hyps_hostF] hyps_hostF
    by (simp add: filesF_def opens_def progressPct_3 js_def)
qed



text \<open>
  C9. The extension field of every file record of a report is a string of lowercase
  letters without a dot, and it may be empty: the file search selects only files whose
  name ends with a dot and one of \<^verbatim>\<open>ts\<close>, \<^verbatim>\<open>tsx\<close>, \<^verbatim>\<open>js\<close>, \<^verbatim>\<open>jsx\<close>, \<^verbatim>\<open>py\<close>, \<^verbatim>\<open>vue\<close>,
  \<^verbatim>\<open>svelte\<close>, and the field is \<^verbatim>\<open>path.extname\<close> of the path without its leading dot,
  which is that extension, or empty when the dot is the first character of the name.
\<close>

theorem C9_extension_field:
  assumes "r \<in> set (results h)" and "fd \<in> set (data_allFiles r)"
  shows "fd_ext fd \<in> set ([] # extensions) \<and> lowercase (fd_ext fd) \<and>
         CHAR_DOT \<notin> set (fd_ext fd) \<and> fd_ext fd = tl (extname (fd_path fd))"
proof -
  from results_files [OF assms(1)] obtain w files docs where
    files: "findFiles h includeGlob excludeGlob = Inr files" and
    r: "r = analysisResult h w files (scanned h files docs)"
    by blast
  then have "fd \<in> set (map2 fileDetail files docs)"
    using assms(2) by (simp add: analysisResult_def scanned_def)
  then obtain f d where fd: "fd = fileDetail f d" "f \<in> set files"
    by (auto dest: set_zip_leftD)
  then have e: "fd_ext fd = replace (extname (fd_path fd)) CHAR_DOT []" "fd_path fd = fsPath f"
    by (simp_all add: fileDetail_def)
  have m: "fd_ext fd \<in> set ([] # extensions)"
    unfolding e using findFiles_ext [OF files fd(2)] by simp
  then have "lowercase (fd_ext fd)"
    using extensions_plain(4) by (auto simp: lowercase_def)
  moreover have "CHAR_DOT \<notin> set (fd_ext fd) \<and> fd_ext fd = tl (extname (fd_path fd))"
    unfolding e(1) using ext_shape [of "fd_path fd"] by blast
  ultimately show ?thesis
    using m by blast
qed

text \<open>
  In a workspace with the files \<^verbatim>\<open>A.TS\<close>, \<^verbatim>\<open>lib/b.ts\<close>, \<^verbatim>\<open>.ts\<close> and
  \<^verbatim>\<open>node_modules/x/c.js\<close> the report lists \<^verbatim>\<open>lib/b.ts\<close> with the extension \<^verbatim>\<open>ts\<close>
  and \<^verbatim>\<open>.ts\<close> with the empty extension; the file with the capital extension is not
  scanned.
\<close>

theorem C9_extension_field_witness:
  "workspaceFiles hostCaps =
     Inr [(js ''/w'', js ''A.TS''), (js ''/w'', js ''lib/b.ts''), (js ''/w'', js ''.ts''),
          (js ''/w'', js ''node_modules/x/c.js'')] \<and>
   reportCaps \<in> set (results hostCaps) \<and>
   map fd_path (data_allFiles reportCaps) = [js ''/w/lib/b.ts'', js ''/w/.ts''] \<and>
   map fd_ext (data_allFiles reportCaps) = [js ''ts'', []] \<and>
   list_all (\<lambda>fd. fd_ext fd \<in> set ([] # extensions) \<and> lowercase (fd_ext fd) \<and>
      CHAR_DOT \<notin> set (fd_ext fd) \<and> fd_ext fd = tl (extname (fd_path fd)))
     (data_allFiles reportCaps)"
proof -
  have r: "reportCaps \<in> set (results hostCaps)"
    by (simp add: results_def events_hostCaps)
  have f: "fileLower \<in> set (data_allFiles reportCaps)" "fileDot \<in> set (data_allFiles reportCaps)"
    by (simp_all add: reportCaps_def)
  have "workspaceFiles hostCaps =
     Inr [(js ''/w'', js ''A.TS''), (js ''/w'', js ''lib/b.ts''), (js ''/w'', js ''.ts''),
          (js ''/w'', js ''node_modules/x/c.js'')]"
    by (simp add: hostCaps_def workspace_host_def js_def)
  moreover have "data_allFiles reportCaps = [fileLower, fileDot]"
    "fd_path fileLower = js ''/w/lib/b.ts''" "fd_path fileDot = js ''/w/.ts''"
    "fd_ext fileLower = js ''ts''" "fd_ext fileDot = []"
    by (simp_all add: reportCaps_def fileLower_def fileDot_def)
  ultimately show ?thesis
    using r C9_extension_field [OF r f(1)] C9_extension_field [OF r f(2)]
    by (simp add: extensions_def lowercase_def js_def ch_def CHAR_DOT_def)
qed

text \<open>
  C10. The match field of every security finding of a report is the first match of one
  of the patterns in the text of an opened file, cut to its first \<open>min(40, length)\<close> code
  units, followed by the ellipsis, also when the match is 40 code units or shorter; it has
  at most 41 code units and ends with the ellipsis.
\<close>

theorem C10_match_field_shape:
  assumes "r \<in> set (results h)" and "s \<in> set (data_securityIssues r)"
  shows "\<exists>file doc pattern matches.
           opens h file doc \<and> pattern \<in> set secPatterns \<and>
           js_match (getText doc) pattern = Some matches \<and>
           si_match s = take (min 40 (length (hd matches))) (hd matches) @ [ellipsis] \<and>
           last (si_match s) = ellipsis \<and>
           length (si_match s) = min 40 (length (hd matches)) + 1 \<and>
           length (si_match s) \<le> 41"
proof -
  from results_cases [OF assms(1)] obtain w files docs l' where
    hyps: "view h" "workspaceName_of (workspaceFolders h) = Inr w" "findFiles h includeGlob excludeGlob = Inr files"
      "list_all2 (opens h) files docs"
    by blast
  have "r = analysisResult h w files (scanned h files docs)"
    using results_scanned [OF hyps] assms(1) by simp
  then have "s \<in> set (concat (map2 (secretFindings h) files docs))"
    using assms(2) by (simp add: analysisResult_def scanned_def)
  then obtain f d where fd: "(f, d) \<in> set (zip files docs)"
    and s: "s \<in> set (secretFindings h f d)"
    by auto
  from fd hyps(4) have op: "opens h f d"
    by (auto simp: list_all2_iff)
  from s have "\<exists>pattern\<in>set secPatterns. \<exists>matches.
      js_match (getText d) pattern = Some matches \<and>
      s = \<lparr>si_file = asRelativePath h f, si_line = 0,
            si_match = take 40 (hd matches) @ [ellipsis]\<rparr>"
  proof -
    from s obtain pattern where p: "pattern \<in> set secPatterns"
      and "s \<in> set (case js_match (getText d) pattern of
                        None \<Rightarrow> []
                      | Some matches \<Rightarrow>
                          [\<lparr>si_file = asRelativePath h f, si_line = 0,
                            si_match = take 40 (hd matches) @ [ellipsis]\<rparr>])"
      by (auto simp: secretFindings_eq)
    then show ?thesis
      by (cases "js_match (getText d) pattern") auto
  qed
  then obtain pattern matches where p: "pattern \<in> set secPatterns"
    and m: "js_match (getText d) pattern = Some matches"
    and eq: "s = \<lparr>si_file = asRelativePath h f, si_line = 0,
                  si_match = take 40 (hd matches) @ [ellipsis]\<rparr>"
    by blast
  have "si_match s = take (min 40 (length (hd matches))) (hd matches) @ [ellipsis]"
    by (simp add: eq min_def)
  moreover have "last (si_match s) = ellipsis" by (simp add: eq)
  moreover have "length (si_match s) = min 40 (length (hd matches)) + 1"
    by (simp add: eq min_def)
  moreover have "length (si_match s) \<le> 41" by (simp add: eq)
  ultimately show ?thesis using op p m by blast
qed

text \<open>In the key file the first match has 17 code units and is not cut, the vendor key has
  43 and is cut to 40; both fields end with the ellipsis.\<close>

theorem C10_match_field_shape_witness:
  "reportE \<in> set (results hostE) \<and>
   data_securityIssues reportE ! 0 \<in> set (data_securityIssues reportE) \<and>
   data_securityIssues reportE ! 1 \<in> set (data_securityIssues reportE) \<and>
   last (si_match (data_securityIssues reportE ! 0)) = ellipsis \<and>
   length (si_match (data_securityIssues reportE ! 0)) = 18 \<and>
   last (si_match (data_securityIssues reportE ! 1)) = ellipsis \<and>
   length (si_match (data_securityIssues reportE ! 1)) = 41"
proof -
  have r: "reportE \<in> set (results hostE)"
    by (simp add: results_def events_hostE)
  have s0: "data_securityIssues reportE ! 0 \<in> set (data_securityIssues reportE)"
    and s1: "data_securityIssues reportE ! 1 \<in> set (data_securityIssues reportE)"
    by (simp_all add: reportE_def)
  have "last (si_match (data_securityIssues reportE ! 0)) = ellipsis"
    using C10_match_field_shape [OF r s0] by blast
  moreover have "last (si_match (data_securityIssues reportE ! 1)) = ellipsis"
    using C10_match_field_shape [OF r s1] by blast
  moreover have "length (si_match (data_securityIssues reportE ! 0)) = 18"
    "length (si_match (data_securityIssues reportE ! 1)) = 41"
    by (simp_all add: reportE_def js_def)
  ultimately show ?thesis using r s0 s1 by simp
qed

end
